theory Spec2Isabelle
  imports Main
begin

section \<open>The memory of the program\<close>

text \<open>
  A \<open>Node*\<close> of \<open>single-linked-list.h\<close> is either the address of the sentinel
  \<open>head_\<close> embedded in a container object (\<open>Head c\<close>, the container in object slot
  \<open>c\<close>) or the address of a cell obtained from \<open>new Node\<close> (\<open>Cell a\<close>). The null
  pointer is \<open>None\<close>. A \<open>BasicIterator\<close> of either flavour is its field \<open>node_\<close>, a
  \<open>ptr option\<close>.

  The fields \<open>head_\<close> and \<open>size_\<close> are written \<open>head'\<close> and \<open>size'\<close>.
\<close>

datatype ptr = Head nat | Cell nat

record 'a Node =
  "value" :: 'a
  next_node :: "ptr option"

record 'a SingleLinkedList =
  head' :: "'a Node"
  size' :: nat

text \<open>
  \<open>lists\<close> holds the container objects (automatic or static storage), \<open>heap\<close> the cells
  of the free store; a slot that is \<open>None\<close> is dead (destroyed object, deleted cell). A
  new cell always takes the next unused address. \<open>new_ok\<close> lists the outcomes of the
  coming \<open>new\<close> expressions in order: \<open>True\<close> succeeds, \<open>False\<close> or no entry throws
  \<open>std::bad_alloc\<close>.

  \<open>size_t\<close> is modelled by \<open>nat\<close>: the source increments \<open>size_\<close> only after a
  successful \<open>new\<close>, and decrements it only behind \<open>assert(!IsEmpty())\<close> or
  \<open>if (!IsEmpty())\<close>, so the decrement never meets zero.
\<close>

record 'a memory =
  lists :: "'a SingleLinkedList option list"
  heap :: "'a Node option list"
  new_ok :: "bool list"

text \<open>
  The ways a call can fail to return. \<open>bad_alloc\<close> is the one exception of the program;
  it carries the memory left behind when it leaves the call. The others end the
  program: an exception inside a \<open>noexcept\<close> function, a failed \<open>assert\<close>, and the
  dereference of a null or dangling pointer.
\<close>

datatype 'a error = bad_alloc "'a memory" | terminate | assert_fail | undefined_behaviour

definition obj :: "'a memory \<Rightarrow> nat \<Rightarrow> 'a SingleLinkedList option" where
  "obj m c = (if c < length (lists m) then lists m ! c else None)"

definition cell :: "'a memory \<Rightarrow> nat \<Rightarrow> 'a Node option" where
  "cell m a = (if a < length (heap m) then heap m ! a else None)"

text \<open>\<open>load m p\<close> reads the node behind a non-null pointer; \<open>None\<close> when it dangles.\<close>

definition load :: "'a memory \<Rightarrow> ptr \<Rightarrow> 'a Node option" where
  "load m p = (case p of Head c \<Rightarrow> map_option head' (obj m c) | Cell a \<Rightarrow> cell m a)"

definition deref :: "'a memory \<Rightarrow> ptr option \<Rightarrow> 'a Node option" where
  "deref m p = (case p of None \<Rightarrow> None | Some q \<Rightarrow> load m q)"

text \<open>\<open>p->next_node = q\<close> and \<open>size_ = n\<close>, for a live target.\<close>

definition set_next :: "ptr \<Rightarrow> ptr option \<Rightarrow> 'a memory \<Rightarrow> 'a memory" where
  "set_next p q m =
     (case p of
        Head c \<Rightarrow>
          m\<lparr>lists := (lists m)
               [c := map_option (\<lambda>L. L\<lparr>head' := (head' L)\<lparr>next_node := q\<rparr>\<rparr>) (lists m ! c)]\<rparr>
      | Cell a \<Rightarrow>
          m\<lparr>heap := (heap m)[a := map_option (\<lambda>n. n\<lparr>next_node := q\<rparr>) (heap m ! a)]\<rparr>)"

definition set_size :: "nat \<Rightarrow> nat \<Rightarrow> 'a memory \<Rightarrow> 'a memory" where
  "set_size c n m =
     m\<lparr>lists := (lists m)[c := map_option (\<lambda>L. L\<lparr>size' := n\<rparr>) (lists m ! c)]\<rparr>"

text \<open>
  A new-expression \<open>new Node(a, b)\<close> runs in two steps: the allocation function is called
  first and throws \<open>bad_alloc\<close> when it fails; only then are the arguments \<open>a\<close> and \<open>b\<close>
  evaluated and the node constructed in the storage obtained. \<open>operator_new\<close> is the first
  step: it consumes one entry of \<open>new_ok\<close>. \<open>construct_Node\<close> is the second: the storage
  is the next unused address of the heap.
\<close>

definition operator_new :: "'a memory \<Rightarrow> 'a error + 'a memory" where
  "operator_new m =
     (case new_ok m of
        [] \<Rightarrow> Inl (bad_alloc m)
      | ok # rest \<Rightarrow>
          if ok then Inr (m\<lparr>new_ok := rest\<rparr>) else Inl (bad_alloc (m\<lparr>new_ok := rest\<rparr>)))"

definition construct_Node :: "'a \<Rightarrow> ptr option \<Rightarrow> 'a memory \<Rightarrow> ptr \<times> 'a memory" where
  "construct_Node v nx m =
     (Cell (length (heap m)), m\<lparr>heap := heap m @ [Some \<lparr>value = v, next_node = nx\<rparr>]\<rparr>)"

text \<open>\<open>new Node(v, nx)\<close> for arguments whose evaluation cannot fail.\<close>

definition new_Node :: "'a \<Rightarrow> ptr option \<Rightarrow> 'a memory \<Rightarrow> 'a error + (ptr \<times> 'a memory)" where
  "new_Node v nx m =
     (case operator_new m of
        Inl e \<Rightarrow> Inl e
      | Inr m0 \<Rightarrow> Inr (construct_Node v nx m0))"

text \<open>\<open>delete p\<close> for a non-null \<open>p\<close>: only a live cell of the free store may be deleted.\<close>

definition delete_Node :: "ptr \<Rightarrow> 'a memory \<Rightarrow> 'a error + 'a memory" where
  "delete_Node p m =
     (case p of
        Head c \<Rightarrow> Inl undefined_behaviour
      | Cell a \<Rightarrow>
          if cell m a \<noteq> None then Inr (m\<lparr>heap := (heap m)[a := None]\<rparr>)
          else Inl undefined_behaviour)"

section \<open>BasicIterator\<close>

text \<open>
  The constructor \<open>BasicIterator(const BasicIterator<Type>& other)\<close> (lines 34-39). It is
  the copy constructor of \<open>Iterator\<close> and the conversion from \<open>Iterator\<close> to
  \<open>ConstIterator\<close>. \<open>node_\<close> starts as \<open>nullptr\<close> (its member initialiser), so for a
  non-null \<open>other.node_\<close> a node is allocated from \<open>*other.node_\<close> and at once forgotten.
  The constructor is \<open>noexcept\<close>, so a failed allocation ends the program. For a cursor
  at the sentinel the node is copied from \<open>head_\<close>, whose \<open>value\<close> is default-initialised
  and, for a scalar \<open>Type\<close>, never written. A \<open>ConstIterator\<close> is copied by its implicit
  copy constructor, which copies \<open>node_\<close> and nothing else.
\<close>

definition BasicIterator_copy ::
  "ptr option \<Rightarrow> 'a memory \<Rightarrow> 'a error + (ptr option \<times> 'a memory)" where
  "BasicIterator_copy other m =
     (if None \<noteq> other then
        (case operator_new m of
           Inl e \<Rightarrow> Inl terminate
         | Inr m0 \<Rightarrow>
             (case deref m0 other of
                None \<Rightarrow> Inl undefined_behaviour
              | Some n \<Rightarrow>
                  (case construct_Node (value n) (next_node n) m0 of
                     (p, m1) \<Rightarrow> Inr (other, m1))))
      else Inr (other, m))"

text \<open>\<open>operator++()\<close> (lines 59-64); the result is the new \<open>node_\<close>.\<close>

definition pre_increment :: "ptr option \<Rightarrow> 'a memory \<Rightarrow> 'a error + ptr option" where
  "pre_increment node m =
     (case node of
        None \<Rightarrow> Inr None
      | Some p \<Rightarrow>
          (case load m p of None \<Rightarrow> Inl undefined_behaviour | Some n \<Rightarrow> Inr (next_node n)))"

text \<open>
  \<open>operator++(int)\<close> (lines 66-70) of \<open>Iterator\<close> and of \<open>ConstIterator\<close>. The result is
  the returned cursor \<open>old_value\<close> paired with the new \<open>node_\<close>. \<open>old_value\<close> is built in
  the caller's result object.
\<close>

definition post_increment ::
  "ptr option \<Rightarrow> 'a memory \<Rightarrow> 'a error + ((ptr option \<times> ptr option) \<times> 'a memory)" where
  "post_increment node m =
     (case BasicIterator_copy node m of
        Inl e \<Rightarrow> Inl e
      | Inr (old_value, m1) \<Rightarrow>
          (case pre_increment node m1 of
             Inl e \<Rightarrow> Inl e
           | Inr node' \<Rightarrow> Inr ((old_value, node'), m1)))"

definition post_increment_const ::
  "ptr option \<Rightarrow> 'a memory \<Rightarrow> 'a error + ((ptr option \<times> ptr option) \<times> 'a memory)" where
  "post_increment_const node m =
     (case pre_increment node m of
        Inl e \<Rightarrow> Inl e
      | Inr node' \<Rightarrow> Inr ((node, node'), m))"

section \<open>SingleLinkedList\<close>

subsection \<open>Queries and cursors\<close>

definition GetSize :: "nat \<Rightarrow> 'a memory \<Rightarrow> 'a error + nat" where
  "GetSize this m =
     (case obj m this of None \<Rightarrow> Inl undefined_behaviour | Some L \<Rightarrow> Inr (size' L))"

definition IsEmpty :: "nat \<Rightarrow> 'a memory \<Rightarrow> 'a error + bool" where
  "IsEmpty this m =
     (case obj m this of None \<Rightarrow> Inl undefined_behaviour | Some L \<Rightarrow> Inr (size' L = 0))"

text \<open>\<open>begin()\<close> and \<open>cbegin()\<close>, \<open>end()\<close> and \<open>cend()\<close>, \<open>before_begin()\<close> and
  \<open>cbefore_begin()\<close>: each flavour is built from the same \<open>Node*\<close>.\<close>

definition list_begin :: "nat \<Rightarrow> 'a memory \<Rightarrow> 'a error + ptr option" where
  "list_begin this m =
     (case obj m this of
        None \<Rightarrow> Inl undefined_behaviour
      | Some L \<Rightarrow> Inr (next_node (head' L)))"

definition list_end :: "ptr option" where
  "list_end = None"

definition before_begin :: "nat \<Rightarrow> ptr option" where
  "before_begin this = Some (Head this)"

subsection \<open>Front operations\<close>

text \<open>\<open>PushFront\<close> (lines 122-125): \<open>head_.next_node\<close> is read after the allocation.\<close>

definition PushFront :: "nat \<Rightarrow> 'a \<Rightarrow> 'a memory \<Rightarrow> 'a error + (unit \<times> 'a memory)" where
  "PushFront this v m =
     (case operator_new m of
        Inl e \<Rightarrow> Inl e
      | Inr m0 \<Rightarrow>
          (case obj m0 this of
             None \<Rightarrow> Inl undefined_behaviour
           | Some L \<Rightarrow>
               (case construct_Node v (next_node (head' L)) m0 of
                  (p, m1) \<Rightarrow>
                    Inr ((), set_size this (size' L + 1) (set_next (Head this) (Some p) m1)))))"

text \<open>\<open>PopFront\<close> with the assertion compiled in.\<close>

definition PopFront :: "nat \<Rightarrow> 'a memory \<Rightarrow> 'a error + (unit \<times> 'a memory)" where
  "PopFront this m =
     (case obj m this of
        None \<Rightarrow> Inl undefined_behaviour
      | Some L \<Rightarrow>
          if size' L = 0 then Inl assert_fail
          else
            (case next_node (head' L) of
               None \<Rightarrow> Inl undefined_behaviour
             | Some tmp \<Rightarrow>
                 (case load m tmp of
                    None \<Rightarrow> Inl undefined_behaviour
                  | Some t \<Rightarrow>
                      (case delete_Node tmp (set_next (Head this) (next_node t) m) of
                         Inl e \<Rightarrow> Inl e
                       | Inr m2 \<Rightarrow> Inr ((), set_size this (size' L - 1) m2)))))"

subsection \<open>Structural mutation by position\<close>

text \<open>
  \<open>InsertAfter\<close> (lines 190-195): \<open>pos.node_->next_node\<close> is read after the allocation, so
  a failed allocation throws \<open>bad_alloc\<close> whatever \<open>pos\<close> is.
\<close>

definition InsertAfter ::
  "nat \<Rightarrow> ptr option \<Rightarrow> 'a \<Rightarrow> 'a memory \<Rightarrow> 'a error + (ptr option \<times> 'a memory)" where
  "InsertAfter this pos v m =
     (case operator_new m of
        Inl e \<Rightarrow> Inl e
      | Inr m0 \<Rightarrow>
          (case pos of
             None \<Rightarrow> Inl undefined_behaviour
           | Some p \<Rightarrow>
               (case load m0 p of
                  None \<Rightarrow> Inl undefined_behaviour
                | Some n \<Rightarrow>
                    (case construct_Node v (next_node n) m0 of
                       (new_node, m1) \<Rightarrow>
                         (let m2 = set_next p (Some new_node) m1 in
                          case obj m2 this of
                            None \<Rightarrow> Inl undefined_behaviour
                          | Some L \<Rightarrow> Inr (Some new_node, set_size this (size' L + 1) m2))))))"

text \<open>The block guarded by \<open>if (!IsEmpty())\<close> in \<open>EraseAfter\<close> (lines 199-202).\<close>

definition erase_next :: "nat \<Rightarrow> ptr option \<Rightarrow> 'a memory \<Rightarrow> 'a error + 'a memory" where
  "erase_next this pos m =
     (case pos of
        None \<Rightarrow> Inl undefined_behaviour
      | Some p \<Rightarrow>
          (case load m p of
             None \<Rightarrow> Inl undefined_behaviour
           | Some n \<Rightarrow>
               (case next_node n of
                  None \<Rightarrow> Inl undefined_behaviour
                | Some tmp \<Rightarrow>
                    (case load m tmp of
                       None \<Rightarrow> Inl undefined_behaviour
                     | Some t \<Rightarrow>
                         (case delete_Node tmp (set_next p (next_node t) m) of
                            Inl e \<Rightarrow> Inl e
                          | Inr m2 \<Rightarrow>
                              (case obj m2 this of
                                 None \<Rightarrow> Inl undefined_behaviour
                               | Some L \<Rightarrow> Inr (set_size this (size' L - 1) m2)))))))"

definition EraseAfter ::
  "nat \<Rightarrow> ptr option \<Rightarrow> 'a memory \<Rightarrow> 'a error + (ptr option \<times> 'a memory)" where
  "EraseAfter this pos m =
     (case IsEmpty this m of
        Inl e \<Rightarrow> Inl e
      | Inr is_empty \<Rightarrow>
          (case (if \<not> is_empty then erase_next this pos m else Inr m) of
             Inl e \<Rightarrow> Inl e
           | Inr m3 \<Rightarrow>
               (case deref m3 pos of
                  None \<Rightarrow> Inl undefined_behaviour
                | Some n \<Rightarrow> Inr (next_node n, m3))))"

text \<open>
  \<open>InsertAfter\<close> and \<open>EraseAfter\<close> take a \<open>ConstIterator\<close> by value. A call with an
  \<open>Iterator\<close> argument, such as \<open>before_begin()\<close> of a container that is not const,
  first converts it with the constructor of lines 34-39.
\<close>

definition InsertAfter_from_Iterator ::
  "nat \<Rightarrow> ptr option \<Rightarrow> 'a \<Rightarrow> 'a memory \<Rightarrow> 'a error + (ptr option \<times> 'a memory)" where
  "InsertAfter_from_Iterator this it v m =
     (case BasicIterator_copy it m of
        Inl e \<Rightarrow> Inl e
      | Inr (pos, m1) \<Rightarrow> InsertAfter this pos v m1)"

definition EraseAfter_from_Iterator ::
  "nat \<Rightarrow> ptr option \<Rightarrow> 'a memory \<Rightarrow> 'a error + (ptr option \<times> 'a memory)" where
  "EraseAfter_from_Iterator this it m =
     (case BasicIterator_copy it m of
        Inl e \<Rightarrow> Inl e
      | Inr (pos, m1) \<Rightarrow> EraseAfter this pos m1)"

subsection \<open>Assign and the constructors\<close>

text \<open>
  The body of the loop of \<open>Assign\<close> after \<open>new Node(*it, nullptr)\<close> (lines 216-220):
  the new cell becomes the first cell when \<open>head_.next_node\<close> is null, and the successor
  of \<open>last_new\<close> otherwise.
\<close>

definition link_node :: "nat \<Rightarrow> ptr option \<Rightarrow> ptr \<Rightarrow> 'a memory \<Rightarrow> 'a error + 'a memory" where
  "link_node this last_new node m =
     (case obj m this of
        None \<Rightarrow> Inl undefined_behaviour
      | Some L \<Rightarrow>
          if next_node (head' L) = None then Inr (set_next (Head this) (Some node) m)
          else
            (case last_new of
               None \<Rightarrow> Inl undefined_behaviour
             | Some q \<Rightarrow>
                 (case load m q of
                    None \<Rightarrow> Inl undefined_behaviour
                  | Some n \<Rightarrow> Inr (set_next q (Some node) m))))"

lemma new_ok_set_next [simp]: "new_ok (set_next p q m) = new_ok m"
  by (simp add: set_next_def split: ptr.splits)

lemma new_ok_set_size [simp]: "new_ok (set_size c n m) = new_ok m"
  by (simp add: set_size_def)

lemma operator_new_new_ok:
  "operator_new m = Inr m0 \<Longrightarrow> length (new_ok m0) < length (new_ok m)"
  by (auto simp: operator_new_def split: list.splits if_splits)

lemma construct_Node_new_ok:
  "construct_Node v nx m0 = (p, m1) \<Longrightarrow> new_ok m1 = new_ok m0"
  by (auto simp: construct_Node_def)

lemma new_Node_new_ok:
  "new_Node v nx m = Inr (p, m1) \<Longrightarrow> length (new_ok m1) < length (new_ok m)"
  by (auto simp: new_Node_def operator_new_def construct_Node_def split: list.splits if_splits)

lemma link_node_new_ok: "link_node this ln node m = Inr m2 \<Longrightarrow> new_ok m2 = new_ok m"
  by (auto simp: link_node_def split: option.splits if_splits)

text \<open>
  \<open>Assign(first, last)\<close> instantiated with \<open>ConstIterator\<close> (the copy constructor). The
  arguments are the loop variables \<open>it\<close> and \<open>last_new\<close>; the call of the source is
  \<open>Assign this first last None\<close>. Every round consumes one entry of \<open>new_ok\<close>, so the
  loop ends on every memory.
\<close>

function Assign ::
  "nat \<Rightarrow> ptr option \<Rightarrow> ptr option \<Rightarrow> ptr option \<Rightarrow> 'a memory
     \<Rightarrow> 'a error + (unit \<times> 'a memory)" where
  "Assign this it last_it last_new m =
     (if it \<noteq> last_it then
        (case operator_new m of
           Inl e \<Rightarrow> Inl e
         | Inr m0 \<Rightarrow>
             (case deref m0 it of
                None \<Rightarrow> Inl undefined_behaviour
              | Some src \<Rightarrow>
                  (case construct_Node (value src) None m0 of
                     (node, m1) \<Rightarrow>
                       (case link_node this last_new node m1 of
                          Inl e \<Rightarrow> Inl e
                        | Inr m2 \<Rightarrow>
                            (case pre_increment it m2 of
                               Inl e \<Rightarrow> Inl e
                             | Inr it' \<Rightarrow> Assign this it' last_it (Some node) m2)))))
      else Inr ((), m))"
  by pat_completeness auto
termination
  by (relation "measure (\<lambda>(this, it, last_it, last_new, m). length (new_ok m))")
     (auto dest!: operator_new_new_ok link_node_new_ok dest: construct_Node_new_ok [OF sym])

declare Assign.simps [simp del]

text \<open>\<open>Assign(values.begin(), values.end())\<close>: the iterators are pointers into the
  array of the \<open>std::initializer_list\<close>, the list \<open>values\<close> here.\<close>

fun Assign_init ::
  "nat \<Rightarrow> 'a list \<Rightarrow> ptr option \<Rightarrow> 'a memory \<Rightarrow> 'a error + (unit \<times> 'a memory)" where
  "Assign_init this [] last_new m = Inr ((), m)"
| "Assign_init this (v # vs) last_new m =
     (case new_Node v None m of
        Inl e \<Rightarrow> Inl e
      | Inr (node, m1) \<Rightarrow>
          (case link_node this last_new node m1 of
             Inl e \<Rightarrow> Inl e
           | Inr m2 \<Rightarrow> Assign_init this vs (Some node) m2))"

text \<open>
  A constructor runs on fresh storage, the next unused object slot. \<open>head_\<close> is
  default-initialised: \<open>next_node\<close> is null by its member initialiser, \<open>value\<close> is a
  default-initialised \<open>Type\<close>, the parameter \<open>d\<close>. When the body of a constructor throws,
  the object never comes to life: its storage is given back, the cells already
  allocated stay behind.
\<close>

definition new_object :: "'a \<Rightarrow> nat \<Rightarrow> 'a memory \<Rightarrow> nat \<times> 'a memory" where
  "new_object d n m =
     (length (lists m),
      m\<lparr>lists := lists m @ [Some \<lparr>head' = \<lparr>value = d, next_node = None\<rparr>, size' = n\<rparr>]\<rparr>)"

definition unwind :: "nat \<Rightarrow> 'a error \<Rightarrow> 'a error" where
  "unwind this e =
     (case e of bad_alloc m \<Rightarrow> bad_alloc (m\<lparr>lists := (lists m)[this := None]\<rparr>) | _ \<Rightarrow> e)"

definition SingleLinkedList_default :: "'a \<Rightarrow> 'a memory \<Rightarrow> 'a error + (nat \<times> 'a memory)" where
  "SingleLinkedList_default d m =
     (case new_object d 0 m of (this, m1) \<Rightarrow> Inr (this, set_next (Head this) None m1))"

definition SingleLinkedList_init ::
  "'a \<Rightarrow> 'a list \<Rightarrow> 'a memory \<Rightarrow> 'a error + (nat \<times> 'a memory)" where
  "SingleLinkedList_init d values m =
     (case new_object d (length values) m of
        (this, m1) \<Rightarrow>
          (case Assign_init this values None m1 of
             Inl e \<Rightarrow> Inl (unwind this e)
           | Inr (u, m2) \<Rightarrow> Inr (this, m2)))"

definition SingleLinkedList_copy ::
  "'a \<Rightarrow> nat \<Rightarrow> 'a memory \<Rightarrow> 'a error + (nat \<times> 'a memory)" where
  "SingleLinkedList_copy d other m =
     (case GetSize other m of
        Inl e \<Rightarrow> Inl e
      | Inr n \<Rightarrow>
          (case new_object d n m of
             (this, m1) \<Rightarrow>
               (case list_begin other m1 of
                  Inl e \<Rightarrow> Inl e
                | Inr first \<Rightarrow>
                    (case Assign this first list_end None m1 of
                       Inl e \<Rightarrow> Inl (unwind this e)
                     | Inr (u, m2) \<Rightarrow> Inr (this, m2)))))"

subsection \<open>Clear, the destructor, swap and copy assignment\<close>

definition live_cells :: "'a memory \<Rightarrow> nat" where
  "live_cells m = length (filter (\<lambda>x. \<not> Option.is_none x) (heap m))"

lemma live_upd_None:
  "a < length h \<Longrightarrow> \<not> Option.is_none (h ! a) \<Longrightarrow>
   length (filter (\<lambda>x. \<not> Option.is_none x) (h[a := None]))
     < length (filter (\<lambda>x. \<not> Option.is_none x) h)"
proof (induction h arbitrary: a)
  case Nil
  then show ?case by simp
next
  case (Cons x h)
  show ?case
  proof (cases a)
    case 0
    with Cons.prems show ?thesis by (simp add: le_imp_less_Suc)
  next
    case (Suc k)
    with Cons.prems Cons.IH [of k] show ?thesis by simp
  qed
qed

lemma delete_Node_live:
  assumes "delete_Node p m = Inr m2"
  shows "live_cells m2 < live_cells m"
proof (cases p)
  case (Head c)
  with assms show ?thesis by (simp add: delete_Node_def)
next
  case (Cell a)
  with assms have a: "a < length (heap m)" "\<not> Option.is_none (heap m ! a)"
    and m2: "m2 = m\<lparr>heap := (heap m)[a := None]\<rparr>"
    by (auto simp: delete_Node_def cell_def Option.is_none_def split: if_splits)
  from live_upd_None [OF a] show ?thesis by (simp add: live_cells_def m2)
qed

lemma live_cells_set_next_Head [simp]: "live_cells (set_next (Head c) q m) = live_cells m"
  by (simp add: set_next_def live_cells_def)

text \<open>The loop of \<open>Clear\<close> (lines 128-132): every round deletes a live cell.\<close>

function Clear_loop :: "nat \<Rightarrow> 'a memory \<Rightarrow> 'a error + 'a memory" where
  "Clear_loop this m =
     (case obj m this of
        None \<Rightarrow> Inl undefined_behaviour
      | Some L \<Rightarrow>
          (case next_node (head' L) of
             None \<Rightarrow> Inr m
           | Some tmp \<Rightarrow>
               (case load m tmp of
                  None \<Rightarrow> Inl undefined_behaviour
                | Some t \<Rightarrow>
                    (case delete_Node tmp (set_next (Head this) (next_node t) m) of
                       Inl e \<Rightarrow> Inl e
                     | Inr m2 \<Rightarrow> Clear_loop this m2))))"
  by pat_completeness auto
termination
  by (relation "measure (\<lambda>(this, m). live_cells m)") (auto dest!: delete_Node_live)

declare Clear_loop.simps [simp del]

definition Clear :: "nat \<Rightarrow> 'a memory \<Rightarrow> 'a error + (unit \<times> 'a memory)" where
  "Clear this m =
     (case Clear_loop this m of Inl e \<Rightarrow> Inl e | Inr m1 \<Rightarrow> Inr ((), set_size this 0 m1))"

text \<open>\<open>~SingleLinkedList()\<close>, after which the storage of the object is dead.\<close>

definition destroy :: "nat \<Rightarrow> 'a memory \<Rightarrow> 'a error + (unit \<times> 'a memory)" where
  "destroy this m =
     (case Clear this m of
        Inl e \<Rightarrow> Inl e
      | Inr (u, m1) \<Rightarrow> Inr ((), m1\<lparr>lists := (lists m1)[this := None]\<rparr>))"

text \<open>\<open>swap\<close> (lines 109-112): two calls of \<open>std::swap\<close>.\<close>

definition swap :: "nat \<Rightarrow> nat \<Rightarrow> 'a memory \<Rightarrow> 'a error + (unit \<times> 'a memory)" where
  "swap this other m =
     (case obj m this of
        None \<Rightarrow> Inl undefined_behaviour
      | Some L \<Rightarrow>
          (case obj m other of
             None \<Rightarrow> Inl undefined_behaviour
           | Some R \<Rightarrow>
               Inr ((),
                    set_size other (size' L)
                      (set_size this (size' R)
                        (set_next (Head other) (next_node (head' L))
                          (set_next (Head this) (next_node (head' R)) m))))))"

text \<open>\<open>operator=\<close> (lines 101-107); \<open>temp\<close> is destroyed when its block is left.\<close>

definition operator_assign ::
  "'a \<Rightarrow> nat \<Rightarrow> nat \<Rightarrow> 'a memory \<Rightarrow> 'a error + (unit \<times> 'a memory)" where
  "operator_assign d this rhs m =
     (if this \<noteq> rhs then
        (case SingleLinkedList_copy d rhs m of
           Inl e \<Rightarrow> Inl e
         | Inr (temp, m1) \<Rightarrow>
             (case swap this temp m1 of
                Inl e \<Rightarrow> Inl e
              | Inr (u, m2) \<Rightarrow> destroy temp m2))
      else Inr ((), m))"

section \<open>The comparison operators\<close>

text \<open>
  \<open>std::equal\<close> and \<open>std::lexicographical_compare\<close> on two ranges of forward iterators,
  as the C++ standard defines them, with the \<open>operator++\<close>, \<open>operator*\<close> and \<open>operator!=\<close>
  of \<open>ConstIterator\<close>: once \<open>*first\<close> has read a live node, \<open>++first\<close> is the \<open>next_node\<close>
  of that node. They follow links for as long as there are links, so on a cyclic chain
  they do not return: the value \<open>None\<close>.
\<close>

partial_function (option) std_equal ::
  "'a memory \<Rightarrow> ptr option \<Rightarrow> ptr option \<Rightarrow> ptr option \<Rightarrow> ptr option
     \<Rightarrow> ('a error + bool) option" where
  "std_equal m first1 last1 first2 last2 =
     (if first1 \<noteq> last1 \<and> first2 \<noteq> last2 then
        (case deref m first1 of
           None \<Rightarrow> Some (Inl undefined_behaviour)
         | Some n1 \<Rightarrow>
             (case deref m first2 of
                None \<Rightarrow> Some (Inl undefined_behaviour)
              | Some n2 \<Rightarrow>
                  if \<not> (value n1 = value n2) then Some (Inr False)
                  else std_equal m (next_node n1) last1 (next_node n2) last2))
      else Some (Inr (first1 = last1 \<and> first2 = last2)))"

partial_function (option) std_lexicographical_compare ::
  "('a::ord) memory \<Rightarrow> ptr option \<Rightarrow> ptr option \<Rightarrow> ptr option \<Rightarrow> ptr option
     \<Rightarrow> ('a error + bool) option" where
  "std_lexicographical_compare m first1 last1 first2 last2 =
     (if first1 \<noteq> last1 \<and> first2 \<noteq> last2 then
        (case deref m first1 of
           None \<Rightarrow> Some (Inl undefined_behaviour)
         | Some n1 \<Rightarrow>
             (case deref m first2 of
                None \<Rightarrow> Some (Inl undefined_behaviour)
              | Some n2 \<Rightarrow>
                  if value n1 < value n2 then Some (Inr True)
                  else if value n2 < value n1 then Some (Inr False)
                  else std_lexicographical_compare m (next_node n1) last1 (next_node n2) last2))
      else Some (Inr (first1 = last1 \<and> first2 \<noteq> last2)))"

definition operator_eq :: "nat \<Rightarrow> nat \<Rightarrow> 'a memory \<Rightarrow> ('a error + bool) option" where
  "operator_eq lhs rhs m =
     (case list_begin lhs m of
        Inl e \<Rightarrow> Some (Inl e)
      | Inr first1 \<Rightarrow>
          (case list_begin rhs m of
             Inl e \<Rightarrow> Some (Inl e)
           | Inr first2 \<Rightarrow> std_equal m first1 list_end first2 list_end))"

definition operator_less :: "nat \<Rightarrow> nat \<Rightarrow> ('a::ord) memory \<Rightarrow> ('a error + bool) option" where
  "operator_less lhs rhs m =
     (case GetSize lhs m of
        Inl e \<Rightarrow> Some (Inl e)
      | Inr n1 \<Rightarrow>
          (case GetSize rhs m of
             Inl e \<Rightarrow> Some (Inl e)
           | Inr n2 \<Rightarrow>
               if n1 < n2 then Some (Inr True)
               else if n1 > n2 then Some (Inr False)
               else
                 (case list_begin lhs m of
                    Inl e \<Rightarrow> Some (Inl e)
                  | Inr first1 \<Rightarrow>
                      (case list_begin rhs m of
                         Inl e \<Rightarrow> Some (Inl e)
                       | Inr first2 \<Rightarrow>
                           std_lexicographical_compare m first1 list_end first2 list_end))))"

section \<open>Chains of cells and the invariant of the memory\<close>

text \<open>
  \<open>chain f p cs\<close>: following \<open>next_node\<close> from the pointer \<open>p\<close> through the live cells of
  \<open>f\<close> visits exactly the cells \<open>cs\<close>, given as pairs of address and stored value, and
  then reaches the null pointer. \<open>cells m c cs\<close>: the container \<open>c\<close> is alive and \<open>cs\<close>
  are the cells from \<open>begin()\<close> to \<open>end()\<close>; \<open>map snd cs\<close> is its element sequence.
\<close>

primrec chain :: "(nat \<Rightarrow> 'a Node option) \<Rightarrow> ptr option \<Rightarrow> (nat \<times> 'a) list \<Rightarrow> bool" where
  "chain f p [] = (p = None)"
| "chain f p (c # cs) =
     (p = Some (Cell (fst c)) \<and>
      (case f (fst c) of None \<Rightarrow> False | Some n \<Rightarrow> value n = snd c \<and> chain f (next_node n) cs))"

definition addrs :: "(nat \<times> 'a) list \<Rightarrow> nat set" where
  "addrs cs = fst ` set cs"

definition cells :: "'a memory \<Rightarrow> nat \<Rightarrow> (nat \<times> 'a) list \<Rightarrow> bool" where
  "cells m c cs =
     (case obj m c of None \<Rightarrow> False | Some L \<Rightarrow> chain (cell m) (next_node (head' L)) cs)"

text \<open>
  The invariant of the data model, for the assignment \<open>A\<close> of cells to containers: every
  live container owns the chain \<open>A c\<close> behind its sentinel and caches its length, a dead
  slot owns nothing, and no cell belongs to two containers.
\<close>

definition inv_with :: "(nat \<Rightarrow> (nat \<times> 'a) list) \<Rightarrow> 'a memory \<Rightarrow> bool" where
  "inv_with A m \<longleftrightarrow>
     (\<forall>c L. obj m c = Some L \<longrightarrow>
        chain (cell m) (next_node (head' L)) (A c) \<and> size' L = length (A c)) \<and>
     (\<forall>c. obj m c = None \<longrightarrow> A c = []) \<and>
     (\<forall>c c' a. c \<noteq> c' \<longrightarrow> a \<in> addrs (A c) \<longrightarrow> a \<notin> addrs (A c'))"

text \<open>
  The cursors a caller may pass to \<open>InsertAfter\<close> and \<open>EraseAfter\<close> of the container \<open>c\<close>
  with cells \<open>cs\<close>: \<open>before_begin()\<close> and the cursors at its cells. \<open>inserted\<close> and
  \<open>erased\<close> are the cell lists after the two calls.
\<close>

definition valid_pos :: "nat \<Rightarrow> (nat \<times> 'a) list \<Rightarrow> ptr option \<Rightarrow> bool" where
  "valid_pos c cs pos = (pos = Some (Head c) \<or> pos \<in> (\<lambda>a. Some (Cell a)) ` addrs cs)"

primrec ins :: "nat \<Rightarrow> nat \<times> 'a \<Rightarrow> (nat \<times> 'a) list \<Rightarrow> (nat \<times> 'a) list" where
  "ins a e [] = []"
| "ins a e (c # cs) = (if fst c = a then c # e # cs else c # ins a e cs)"

primrec era :: "nat \<Rightarrow> (nat \<times> 'a) list \<Rightarrow> (nat \<times> 'a) list" where
  "era a [] = []"
| "era a (c # cs) = (if fst c = a then c # tl cs else c # era a cs)"

definition inserted :: "ptr option \<Rightarrow> nat \<times> 'a \<Rightarrow> (nat \<times> 'a) list \<Rightarrow> (nat \<times> 'a) list" where
  "inserted pos e cs = (case pos of Some (Cell a) \<Rightarrow> ins a e cs | _ \<Rightarrow> e # cs)"

definition erased :: "ptr option \<Rightarrow> (nat \<times> 'a) list \<Rightarrow> (nat \<times> 'a) list" where
  "erased pos cs = (case pos of Some (Cell a) \<Rightarrow> era a cs | _ \<Rightarrow> tl cs)"

text \<open>The memory at the start of the program, with the outcomes \<open>oks\<close> of its allocations.\<close>

definition start :: "bool list \<Rightarrow> 'a memory" where
  "start oks = \<lparr>lists = [], heap = [], new_ok = oks\<rparr>"

text \<open>
  \<open>std::distance(first, last)\<close> on forward iterators: the number of \<open>operator++\<close> steps
  from \<open>first\<close> to \<open>last\<close>, here the number of cells found by following links. On a
  cyclic chain it does not return.
\<close>

partial_function (option) std_distance ::
  "'a memory \<Rightarrow> ptr option \<Rightarrow> ptr option \<Rightarrow> nat \<Rightarrow> ('a error + nat) option" where
  "std_distance m first last_it n =
     (if first \<noteq> last_it then
        (case pre_increment first m of
           Inl e \<Rightarrow> Some (Inl e)
         | Inr first' \<Rightarrow> std_distance m first' last_it (Suc n))
      else Some (Inr n))"

text \<open>
  The memories a program can reach: from the empty memory by the constructors, the
  destructor, \<open>operator=\<close>, \<open>swap\<close>, \<open>Clear\<close>, the four mutating operations (the positional
  ones with a cursor of the container they are called on) and the copy of a cursor,
  including the memories left behind when one of them throws \<open>std::bad_alloc\<close>.
\<close>

inductive reachable :: "'a memory \<Rightarrow> bool" where
  at_start: "reachable (start oks)"
| default_constructed:
    "reachable m \<Longrightarrow> SingleLinkedList_default d m = Inr (this, m') \<Longrightarrow> reachable m'"
| init_constructed:
    "reachable m \<Longrightarrow> SingleLinkedList_init d vs m = Inr (this, m') \<Longrightarrow> reachable m'"
| init_thrown:
    "reachable m \<Longrightarrow> SingleLinkedList_init d vs m = Inl (bad_alloc m') \<Longrightarrow> reachable m'"
| copy_constructed:
    "reachable m \<Longrightarrow> SingleLinkedList_copy d other m = Inr (this, m') \<Longrightarrow> reachable m'"
| copy_thrown:
    "reachable m \<Longrightarrow> SingleLinkedList_copy d other m = Inl (bad_alloc m') \<Longrightarrow> reachable m'"
| pushed:
    "reachable m \<Longrightarrow> PushFront this v m = Inr (u, m') \<Longrightarrow> reachable m'"
| push_thrown:
    "reachable m \<Longrightarrow> PushFront this v m = Inl (bad_alloc m') \<Longrightarrow> reachable m'"
| popped:
    "reachable m \<Longrightarrow> PopFront this m = Inr (u, m') \<Longrightarrow> reachable m'"
| inserted_after:
    "reachable m \<Longrightarrow> cells m this cs \<Longrightarrow> valid_pos this cs pos \<Longrightarrow>
     InsertAfter this pos v m = Inr (it, m') \<Longrightarrow> reachable m'"
| insert_thrown:
    "reachable m \<Longrightarrow> cells m this cs \<Longrightarrow> valid_pos this cs pos \<Longrightarrow>
     InsertAfter this pos v m = Inl (bad_alloc m') \<Longrightarrow> reachable m'"
| erased_after:
    "reachable m \<Longrightarrow> cells m this cs \<Longrightarrow> valid_pos this cs pos \<Longrightarrow>
     EraseAfter this pos m = Inr (it, m') \<Longrightarrow> reachable m'"
| cursor_copied:
    "reachable m \<Longrightarrow> BasicIterator_copy it m = Inr (it', m') \<Longrightarrow> reachable m'"
| swapped:
    "reachable m \<Longrightarrow> swap this other m = Inr (u, m') \<Longrightarrow> reachable m'"
| cleared:
    "reachable m \<Longrightarrow> Clear this m = Inr (u, m') \<Longrightarrow> reachable m'"
| destroyed:
    "reachable m \<Longrightarrow> destroy this m = Inr (u, m') \<Longrightarrow> reachable m'"
| assigned:
    "reachable m \<Longrightarrow> operator_assign d this rhs m = Inr (u, m') \<Longrightarrow> reachable m'"
| assign_thrown:
    "reachable m \<Longrightarrow> operator_assign d this rhs m = Inl (bad_alloc m') \<Longrightarrow> reachable m'"

text \<open>
  Two relations for the loop of \<open>Assign\<close>. \<open>kept N this m m'\<close>: from \<open>m\<close> to \<open>m'\<close> no container
  other than \<open>this\<close> and no cell below the address \<open>N\<close> has changed. \<open>building N n
  this built last_new m\<close>: the container \<open>this\<close>, with \<open>size_\<close> already \<open>n\<close>, has the chain
  \<open>built\<close> of cells at or above \<open>N\<close>, and \<open>last_new\<close> points to its last cell.
\<close>

definition kept :: "nat \<Rightarrow> nat \<Rightarrow> 'a memory \<Rightarrow> 'a memory \<Rightarrow> bool" where
  "kept N this m m' \<longleftrightarrow>
     (\<forall>c. c \<noteq> this \<longrightarrow> obj m' c = obj m c) \<and> (\<forall>a<N. cell m' a = cell m a) \<and>
     (obj m this \<noteq> None \<longrightarrow> obj m' this \<noteq> None) \<and>
     length (heap m) \<le> length (heap m')"

definition building ::
  "nat \<Rightarrow> nat \<Rightarrow> nat \<Rightarrow> (nat \<times> 'a) list \<Rightarrow> ptr option \<Rightarrow> 'a memory \<Rightarrow> bool" where
  "building N n this built last_new m \<longleftrightarrow>
     (\<exists>L. obj m this = Some L \<and> size' L = n \<and> chain (cell m) (next_node (head' L)) built) \<and>
     (\<forall>a\<in>addrs built. N \<le> a) \<and> N \<le> length (heap m) \<and>
     (built \<noteq> [] \<longrightarrow> last_new = Some (Cell (fst (last built))))"


section \<open>Equality and ordering as the specification words them\<close>

text \<open>
  Two sequences are equal when they have the same length and equal elements at every
  position. \<open>xs\<close> is less than \<open>ys\<close> when it is shorter, or as long and less at the first
  position where the two differ.
\<close>

definition spec_equal :: "'a list \<Rightarrow> 'a list \<Rightarrow> bool" where
  "spec_equal xs ys \<longleftrightarrow> length xs = length ys \<and> (\<forall>i<length xs. xs ! i = ys ! i)"

fun first_difference_less :: "('a::linorder) list \<Rightarrow> 'a list \<Rightarrow> bool" where
  "first_difference_less (x # xs) (y # ys) =
     (if x = y then first_difference_less xs ys else x < y)"
| "first_difference_less xs ys = False"

definition spec_less :: "('a::linorder) list \<Rightarrow> 'a list \<Rightarrow> bool" where
  "spec_less xs ys \<longleftrightarrow>
     length xs < length ys \<or> (length xs = length ys \<and> first_difference_less xs ys)"

section \<open>Example memories\<close>

text \<open>
  Memories with one container of \<open>nat\<close> in slot 0, named after its elements, for the
  concrete instances below. Each is the result of running the operations of the model
  from \<open>start\<close>; \<open>mk_node\<close> and \<open>list_object\<close> abbreviate a live cell and a live container
  whose sentinel holds the default value 0.
\<close>

definition mk_node :: "nat \<Rightarrow> ptr option \<Rightarrow> nat Node option" where
  "mk_node v nx = Some \<lparr>value = v, next_node = nx\<rparr>"

definition list_object :: "ptr option \<Rightarrow> nat \<Rightarrow> nat SingleLinkedList option" where
  "list_object first n = Some \<lparr>head' = \<lparr>value = 0, next_node = first\<rparr>, size' = n\<rparr>"

definition mem_empty :: "nat memory" where
  "mem_empty = \<lparr>lists = [list_object None 0], heap = [], new_ok = [True, True, True]\<rparr>"

definition mem_7 :: "nat memory" where
  "mem_7 = \<lparr>lists = [list_object (Some (Cell 0)) 1], heap = [mk_node 7 None],
            new_ok = [True, True]\<rparr>"

definition mem_7_9 :: "nat memory" where
  "mem_7_9 = \<lparr>lists = [list_object (Some (Cell 0)) 2],
              heap = [mk_node 7 (Some (Cell 1)), mk_node 9 None], new_ok = [True]\<rparr>"

definition mem_5_7_9 :: "nat memory" where
  "mem_5_7_9 = \<lparr>lists = [list_object (Some (Cell 2)) 3],
                heap = [mk_node 7 (Some (Cell 1)), mk_node 9 None, mk_node 5 (Some (Cell 0))],
                new_ok = []\<rparr>"

definition mem_7_9_after :: "nat memory" where
  "mem_7_9_after = \<lparr>lists = [list_object (Some (Cell 0)) 2],
                    heap = [mk_node 7 (Some (Cell 1)), mk_node 9 None, None], new_ok = []\<rparr>"

definition mem_9 :: "nat memory" where
  "mem_9 = \<lparr>lists = [list_object (Some (Cell 1)) 1],
            heap = [None, mk_node 9 None, None], new_ok = []\<rparr>"

definition mem_1 :: "nat memory" where
  "mem_1 = \<lparr>lists = [list_object (Some (Cell 0)) 1], heap = [mk_node 1 None], new_ok = []\<rparr>"

definition mem_5 :: "nat memory" where
  "mem_5 = \<lparr>lists = [list_object (Some (Cell 0)) 1], heap = [mk_node 5 None],
            new_ok = [True, True]\<rparr>"

text \<open>After \<open>InsertAfter(before_begin(), 5)\<close> on the empty container: cell 0 is the node
  that the conversion of the cursor allocated and forgot.\<close>

definition mem_5_converted :: "nat memory" where
  "mem_5_converted = \<lparr>lists = [list_object (Some (Cell 1)) 1],
                      heap = [mk_node 0 None, mk_node 5 None], new_ok = [True]\<rparr>"

definition mem_empty_converted :: "nat memory" where
  "mem_empty_converted = \<lparr>lists = [list_object None 0], heap = [mk_node 0 None],
                          new_ok = [True, True]\<rparr>"

definition mem_7_erased :: "nat memory" where
  "mem_7_erased = \<lparr>lists = [list_object (Some (Cell 0)) 1], heap = [mk_node 7 None, None],
                   new_ok = [True]\<rparr>"

text \<open>
  Seven containers built one after the other by the initializer-list constructor:
  \<open>{1,2,3}\<close>, \<open>{1,2,3}\<close>, \<open>{1,2}\<close>, \<open>{}\<close>, \<open>{}\<close>, \<open>{5}\<close> and \<open>{1,3}\<close>.
\<close>

fun construct_all :: "nat list list \<Rightarrow> nat memory \<Rightarrow> nat error + nat memory" where
  "construct_all [] m = Inr m"
| "construct_all (vs # rest) m =
     (case SingleLinkedList_init 0 vs m of
        Inl e \<Rightarrow> Inl e
      | Inr (c, m') \<Rightarrow> construct_all rest m')"

definition mem_compare :: "nat memory" where
  "mem_compare =
     \<lparr>lists = [list_object (Some (Cell 0)) 3, list_object (Some (Cell 3)) 3,
               list_object (Some (Cell 6)) 2, list_object None 0, list_object None 0,
               list_object (Some (Cell 8)) 1, list_object (Some (Cell 9)) 2],
      heap = [mk_node 1 (Some (Cell 1)), mk_node 2 (Some (Cell 2)), mk_node 3 None,
              mk_node 1 (Some (Cell 4)), mk_node 2 (Some (Cell 5)), mk_node 3 None,
              mk_node 1 (Some (Cell 7)), mk_node 2 None,
              mk_node 5 None,
              mk_node 1 (Some (Cell 10)), mk_node 3 None],
      new_ok = []\<rparr>"

text \<open>The container \<open>{7}\<close> and its copy in slot 1, before and after \<open>PushFront(4)\<close> on the
  copy.\<close>

definition mem_7_copied :: "nat memory" where
  "mem_7_copied = \<lparr>lists = [list_object (Some (Cell 0)) 1, list_object (Some (Cell 1)) 1],
                   heap = [mk_node 7 None, mk_node 7 None], new_ok = [True]\<rparr>"

definition mem_7_copy_pushed :: "nat memory" where
  "mem_7_copy_pushed = \<lparr>lists = [list_object (Some (Cell 0)) 1, list_object (Some (Cell 2)) 2],
                        heap = [mk_node 7 None, mk_node 7 None, mk_node 4 (Some (Cell 1))],
                        new_ok = []\<rparr>"

text \<open>
  The containers \<open>{1,2}\<close> and \<open>{9}\<close> with one allocation left that succeeds, and the memory
  after the assignment of the first to the second has thrown: slot 2 was the
  temporary, cell 3 is the one node its constructor had allocated.
\<close>

definition mem_12_9 :: "nat memory" where
  "mem_12_9 = \<lparr>lists = [list_object (Some (Cell 0)) 2, list_object (Some (Cell 2)) 1],
               heap = [mk_node 1 (Some (Cell 1)), mk_node 2 None, mk_node 9 None],
               new_ok = [True, False]\<rparr>"

definition mem_12_9_failed :: "nat memory" where
  "mem_12_9_failed = \<lparr>lists = [list_object (Some (Cell 0)) 2, list_object (Some (Cell 2)) 1, None],
                      heap = [mk_node 1 (Some (Cell 1)), mk_node 2 None, mk_node 9 None,
                              mk_node 1 None],
                      new_ok = []\<rparr>"

text \<open>The container \<open>{10, 20}\<close> with no allocation left; with one left; and after an
  \<open>Iterator\<close> at its first cell has been copied with that one.\<close>

definition mem_10_20_full :: "nat memory" where
  "mem_10_20_full = \<lparr>lists = [list_object (Some (Cell 0)) 2],
                     heap = [mk_node 10 (Some (Cell 1)), mk_node 20 None], new_ok = []\<rparr>"

definition mem_10_20 :: "nat memory" where
  "mem_10_20 = \<lparr>lists = [list_object (Some (Cell 0)) 2],
                heap = [mk_node 10 (Some (Cell 1)), mk_node 20 None], new_ok = [True]\<rparr>"

definition mem_10_20_copied :: "nat memory" where
  "mem_10_20_copied = \<lparr>lists = [list_object (Some (Cell 0)) 2],
                       heap = [mk_node 10 (Some (Cell 1)), mk_node 20 None,
                               mk_node 10 (Some (Cell 1))],
                       new_ok = []\<rparr>"

section \<open>Reads after writes\<close>

lemma obj_set_size [simp]:
  "obj (set_size c n m) c' = (if c' = c then map_option (\<lambda>L. L\<lparr>size' := n\<rparr>) (obj m c) else obj m c')"
  by (auto simp: obj_def set_size_def)

lemma cell_set_size [simp]: "cell (set_size c n m) = cell m"
  by (auto simp: cell_def set_size_def fun_eq_iff)

lemma heap_set_size [simp]: "heap (set_size c n m) = heap m"
  by (simp add: set_size_def)

lemma obj_set_next_Head [simp]:
  "obj (set_next (Head c) q m) c' =
     (if c' = c then map_option (\<lambda>L. L\<lparr>head' := (head' L)\<lparr>next_node := q\<rparr>\<rparr>) (obj m c) else obj m c')"
  by (auto simp: obj_def set_next_def)

lemma cell_set_next_Head [simp]: "cell (set_next (Head c) q m) = cell m"
  by (auto simp: cell_def set_next_def fun_eq_iff)

lemma heap_set_next_Head [simp]: "heap (set_next (Head c) q m) = heap m"
  by (simp add: set_next_def)

lemma obj_set_next_Cell [simp]: "obj (set_next (Cell a) q m) = obj m"
  by (auto simp: obj_def set_next_def fun_eq_iff)

lemma cell_set_next_Cell [simp]:
  "cell (set_next (Cell a) q m) = (cell m)(a := map_option (\<lambda>n. n\<lparr>next_node := q\<rparr>) (cell m a))"
  by (auto simp: cell_def set_next_def fun_eq_iff)

lemma load_Head [simp]: "load m (Head c) = map_option head' (obj m c)"
  by (simp add: load_def)

lemma load_Cell [simp]: "load m (Cell a) = cell m a"
  by (simp add: load_def)

lemma length_heap_set_next [simp]: "length (heap (set_next p q m)) = length (heap m)"
  by (cases p) (simp_all add: set_next_def)

section \<open>Allocation before the arguments\<close>

text \<open>
  Where the arguments of the constructor are read through a live pointer, the two
  steps of the new-expression amount to \<open>new_Node\<close> on the values read; through a null
  or dangling pointer, a failed allocation throws before the pointer is read.
\<close>

lemma new_Node_unfold:
  "new_Node v nx m =
     (case new_ok m of
        [] \<Rightarrow> Inl (bad_alloc m)
      | ok # rest \<Rightarrow>
          if ok
          then Inr (Cell (length (heap m)),
                    m\<lparr>heap := heap m @ [Some \<lparr>value = v, next_node = nx\<rparr>], new_ok := rest\<rparr>)
          else Inl (bad_alloc (m\<lparr>new_ok := rest\<rparr>)))"
  by (simp add: new_Node_def operator_new_def construct_Node_def split: list.splits)

lemma operator_new_Inr:
  assumes "operator_new m = Inr m0"
  shows "obj m0 = obj m" and "cell m0 = cell m" and "heap m0 = heap m"
    and "load m0 = load m" and "deref m0 = deref m" and "new_ok m = True # new_ok m0"
  using assms
  by (auto simp: operator_new_def obj_def cell_def load_def deref_def fun_eq_iff
           split: list.splits if_splits ptr.splits option.splits)

lemma new_Node_steps:
  "new_Node v nx m = Inr (p, m1) \<Longrightarrow>
   \<exists>m0. operator_new m = Inr m0 \<and> construct_Node v nx m0 = (p, m1)"
  by (auto simp: new_Node_def split: sum.splits)

lemma operator_new_Inl:
  assumes "operator_new m = Inl e"
  shows "\<exists>m'. e = bad_alloc m' \<and> obj m' = obj m \<and> cell m' = cell m \<and> heap m' = heap m"
  using assms
  by (auto simp: operator_new_def obj_def cell_def fun_eq_iff split: list.splits if_splits)

lemma PushFront_unfold:
  "PushFront this v m =
     (case obj m this of
        None \<Rightarrow> (case operator_new m of Inl e \<Rightarrow> Inl e | Inr m0 \<Rightarrow> Inl undefined_behaviour)
      | Some L \<Rightarrow>
          (case new_Node v (next_node (head' L)) m of
             Inl e \<Rightarrow> Inl e
           | Inr (p, m1) \<Rightarrow>
               Inr ((), set_size this (size' L + 1) (set_next (Head this) (Some p) m1))))"
  by (auto simp: PushFront_def new_Node_def operator_new_Inr
           split: sum.splits option.splits prod.splits)

lemma InsertAfter_unfold:
  "InsertAfter this pos v m =
     (case pos of
        None \<Rightarrow> (case operator_new m of Inl e \<Rightarrow> Inl e | Inr m0 \<Rightarrow> Inl undefined_behaviour)
      | Some p \<Rightarrow>
          (case load m p of
             None \<Rightarrow>
               (case operator_new m of Inl e \<Rightarrow> Inl e | Inr m0 \<Rightarrow> Inl undefined_behaviour)
           | Some n \<Rightarrow>
               (case new_Node v (next_node n) m of
                  Inl e \<Rightarrow> Inl e
                | Inr (new_node, m1) \<Rightarrow>
                    (let m2 = set_next p (Some new_node) m1 in
                     case obj m2 this of
                       None \<Rightarrow> Inl undefined_behaviour
                     | Some L \<Rightarrow> Inr (Some new_node, set_size this (size' L + 1) m2)))))"
  by (auto simp: InsertAfter_def new_Node_def operator_new_Inr Let_def
           split: sum.splits option.splits prod.splits)

lemma BasicIterator_copy_unfold:
  "BasicIterator_copy other m =
     (if None \<noteq> other then
        (case deref m other of
           None \<Rightarrow>
             (case operator_new m of Inl e \<Rightarrow> Inl terminate | Inr m0 \<Rightarrow> Inl undefined_behaviour)
         | Some n \<Rightarrow>
             (case new_Node (value n) (next_node n) m of
                Inl e \<Rightarrow> Inl terminate
              | Inr (p, m1) \<Rightarrow> Inr (other, m1)))
      else Inr (other, m))"
  by (auto simp: BasicIterator_copy_def new_Node_def operator_new_Inr
           split: sum.splits option.splits prod.splits)

lemma Assign_unfold:
  "Assign this it last_it last_new m =
     (if it \<noteq> last_it then
        (case deref m it of
           None \<Rightarrow> (case operator_new m of Inl e \<Rightarrow> Inl e | Inr m0 \<Rightarrow> Inl undefined_behaviour)
         | Some src \<Rightarrow>
             (case new_Node (value src) None m of
                Inl e \<Rightarrow> Inl e
              | Inr (node, m1) \<Rightarrow>
                  (case link_node this last_new node m1 of
                     Inl e \<Rightarrow> Inl e
                   | Inr m2 \<Rightarrow>
                       (case pre_increment it m2 of
                          Inl e \<Rightarrow> Inl e
                        | Inr it' \<Rightarrow> Assign this it' last_it (Some node) m2))))
      else Inr ((), m))"
  by (subst Assign.simps)
     (auto simp: new_Node_def operator_new_Inr split: sum.splits option.splits prod.splits)

section \<open>Allocation and deallocation\<close>

lemma new_Node_Inr:
  assumes "new_Node v nx m = Inr (p, m1)"
  shows "p = Cell (length (heap m))"
    and "obj m1 = obj m"
    and "cell m1 = (cell m)(length (heap m) := Some \<lparr>value = v, next_node = nx\<rparr>)"
    and "length (heap m1) = Suc (length (heap m))"
    and "new_ok m = True # new_ok m1"
  using assms
  by (auto simp: new_Node_unfold obj_def cell_def fun_eq_iff nth_append split: list.splits if_splits)

lemma delete_Node_Inr:
  assumes "delete_Node p m = Inr m2"
  shows "\<exists>a. p = Cell a \<and> cell m a \<noteq> None \<and> cell m2 = (cell m)(a := None)"
    and "obj m2 = obj m"
    and "length (heap m2) = length (heap m)"
    and "new_ok m2 = new_ok m"
  using assms
  by (cases p; auto simp: delete_Node_def obj_def cell_def fun_eq_iff split: if_splits)+

lemma cell_Some_bound: "cell m a = Some n \<Longrightarrow> a < length (heap m)"
  by (simp add: cell_def split: if_splits)

section \<open>Properties of chains\<close>

lemma addrs_simps [simp]:
  "addrs [] = {}"
  "addrs (c # cs) = insert (fst c) (addrs cs)"
  "addrs (cs @ cs') = addrs cs \<union> addrs cs'"
  by (auto simp: addrs_def)

lemma addrs_map_fst: "addrs cs = set (map fst cs)"
  by (simp add: addrs_def)

lemma addrs_split: "a \<in> addrs cs \<Longrightarrow> \<exists>pre x post. cs = pre @ (a, x) # post"
proof -
  assume "a \<in> addrs cs"
  then obtain x where "(a, x) \<in> set cs" by (auto simp: addrs_def)
  from split_list [OF this] show ?thesis by blast
qed

lemma chain_frame:
  "(\<And>a. a \<in> addrs cs \<Longrightarrow> g a = f a) \<Longrightarrow> chain g p cs = chain f p cs"
  by (induction cs arbitrary: p) (auto split: option.splits)

lemma chain_upd:
  "a \<notin> addrs cs \<Longrightarrow> chain (f(a := x)) p cs = chain f p cs"
  by (rule chain_frame) auto

lemma chain_live: "chain f p cs \<Longrightarrow> a \<in> addrs cs \<Longrightarrow> f a \<noteq> None"
  by (induction cs arbitrary: p) (auto split: option.splits)

lemma chain_unique: "chain f p cs \<Longrightarrow> chain f p cs' \<Longrightarrow> cs = cs'"
proof (induction cs arbitrary: p cs')
  case Nil
  then show ?case by (cases cs') auto
next
  case (Cons c cs)
  then show ?case by (cases cs') (auto split: option.splits simp: prod_eq_iff)
qed

lemma chain_append:
  "chain f p (pre @ c # post) \<Longrightarrow>
   \<exists>n. f (fst c) = Some n \<and> value n = snd c \<and> chain f (next_node n) post"
  by (induction pre arbitrary: p) (auto split: option.splits)

lemma chain_distinct: "chain f p cs \<Longrightarrow> distinct (map fst cs)"
proof (induction cs arbitrary: p)
  case Nil
  then show ?case by simp
next
  case (Cons c cs)
  from Cons.prems obtain n where n: "f (fst c) = Some n" "chain f (next_node n) cs"
    by (auto split: option.splits)
  have "fst c \<notin> addrs cs"
  proof
    assume "fst c \<in> addrs cs"
    then obtain pre y post where cs: "cs = pre @ (fst c, y) # post"
      by (blast dest: addrs_split)
    from chain_append [OF n(2) [unfolded cs]] n(1) have "chain f (next_node n) post" by simp
    with n(2) have "cs = post" by (rule chain_unique)
    with cs show False by simp
  qed
  with Cons.IH [OF n(2)] show ?case by (simp add: addrs_map_fst)
qed

lemma chain_fresh: "chain (cell m) p cs \<Longrightarrow> length (heap m) \<notin> addrs cs"
proof
  assume c: "chain (cell m) p cs" and "length (heap m) \<in> addrs cs"
  then have "cell m (length (heap m)) \<noteq> None" by (rule chain_live)
  then show False by (simp add: cell_def)
qed

section \<open>The operations keep the invariant\<close>

lemma inv_with_chain: "inv_with A m \<Longrightarrow> obj m c = Some L \<Longrightarrow> chain (cell m) (next_node (head' L)) (A c)"
  by (simp add: inv_with_def)

lemma inv_with_size: "inv_with A m \<Longrightarrow> obj m c = Some L \<Longrightarrow> size' L = length (A c)"
  by (simp add: inv_with_def)

lemma inv_with_dead: "inv_with A m \<Longrightarrow> obj m c = None \<Longrightarrow> A c = []"
  by (simp add: inv_with_def)

lemma inv_with_disjoint: "inv_with A m \<Longrightarrow> c \<noteq> c' \<Longrightarrow> a \<in> addrs (A c) \<Longrightarrow> a \<notin> addrs (A c')"
  unfolding inv_with_def by blast

lemma inv_with_live: "inv_with A m \<Longrightarrow> a \<in> addrs (A c) \<Longrightarrow> cell m a \<noteq> None"
proof -
  assume inv: "inv_with A m" and a: "a \<in> addrs (A c)"
  then have "A c \<noteq> []" by auto
  with inv obtain L where "obj m c = Some L" by (cases "obj m c") (auto dest: inv_with_dead)
  from chain_live [OF inv_with_chain [OF inv this] a] show ?thesis .
qed

lemma inv_with_update:
  assumes inv: "inv_with A m"
    and objs: "\<And>c. c \<noteq> c0 \<Longrightarrow> obj m' c = obj m c"
    and obj0: "obj m' c0 = Some L0"
    and chain0: "chain (cell m') (next_node (head' L0)) cs0"
    and size0: "size' L0 = length cs0"
    and frame: "\<And>a. a \<notin> addrs (A c0) \<Longrightarrow> cell m a \<noteq> None \<Longrightarrow> cell m' a = cell m a"
    and sub: "\<And>a. a \<in> addrs cs0 \<Longrightarrow> a \<in> addrs (A c0) \<or> cell m a = None"
  shows "inv_with (A(c0 := cs0)) m'"
  unfolding inv_with_def
proof (intro conjI allI impI)
  fix c L assume o: "obj m' c = Some L"
  show "chain (cell m') (next_node (head' L)) ((A(c0 := cs0)) c)"
  proof (cases "c = c0")
    case True
    with o obj0 chain0 show ?thesis by simp
  next
    case False
    with o objs have o': "obj m c = Some L" by simp
    have "chain (cell m') (next_node (head' L)) (A c) = chain (cell m) (next_node (head' L)) (A c)"
    proof (rule chain_frame)
      fix a assume a: "a \<in> addrs (A c)"
      with inv False have "a \<notin> addrs (A c0)" by (blast dest: inv_with_disjoint)
      moreover from inv a have "cell m a \<noteq> None" by (rule inv_with_live)
      ultimately show "cell m' a = cell m a" by (rule frame)
    qed
    with inv_with_chain [OF inv o'] False show ?thesis by simp
  qed
  show "size' L = length ((A(c0 := cs0)) c)"
    using o obj0 size0 objs [of c] inv_with_size [OF inv, of c L] by (cases "c = c0") auto
next
  fix c assume dead: "obj m' c = None"
  with obj0 have ne: "c \<noteq> c0" by auto
  with dead objs [of c] have "obj m c = None" by simp
  with inv ne show "(A(c0 := cs0)) c = []" by (simp add: inv_with_dead)
next
  fix c c' a assume ne: "c \<noteq> c'" and a: "a \<in> addrs ((A(c0 := cs0)) c)"
  show "a \<notin> addrs ((A(c0 := cs0)) c')"
  proof (cases "c = c0")
    case True
    with a have "a \<in> addrs cs0" by simp
    from sub [OF this] show ?thesis
    proof
      assume "a \<in> addrs (A c0)"
      with inv ne True show ?thesis by (auto dest: inv_with_disjoint)
    next
      assume "cell m a = None"
      with inv ne True show ?thesis by (auto dest: inv_with_live)
    qed
  next
    case False
    with a have a': "a \<in> addrs (A c)" by simp
    show ?thesis
    proof (cases "c' = c0")
      case True
      have "a \<notin> addrs cs0"
      proof
        assume "a \<in> addrs cs0"
        from sub [OF this] show False
        proof
          assume "a \<in> addrs (A c0)"
          with inv a' False show False by (auto dest: inv_with_disjoint)
        next
          assume "cell m a = None"
          with inv a' show False by (auto dest: inv_with_live)
        qed
      qed
      with True show ?thesis by simp
    next
      case False
      with inv ne a' show ?thesis by (auto dest: inv_with_disjoint)
    qed
  qed
qed

lemma chain_insert:
  assumes "chain f p (pre @ (a, x) # post)" and "f a = Some n"
    and "new \<notin> addrs (pre @ (a, x) # post)"
  shows "chain (f(new := Some \<lparr>value = v, next_node = next_node n\<rparr>,
                  a := Some (n\<lparr>next_node := Some (Cell new)\<rparr>)))
           p (pre @ (a, x) # (new, v) # post)"
proof -
  from assms(1) have d: "distinct (map fst (pre @ (a, x) # post))" by (rule chain_distinct)
  define g where "g = f(new := Some \<lparr>value = v, next_node = next_node n\<rparr>,
                        a := Some (n\<lparr>next_node := Some (Cell new)\<rparr>))"
  from assms(3) have ga: "g a = Some (n\<lparr>next_node := Some (Cell new)\<rparr>)"
    and gn: "g new = Some \<lparr>value = v, next_node = next_node n\<rparr>"
    and go: "\<And>b. b \<noteq> a \<Longrightarrow> b \<noteq> new \<Longrightarrow> g b = f b"
    by (auto simp: g_def)
  from d assms(3) have post: "\<And>q. chain g q post = chain f q post"
    by (intro chain_frame go) (auto simp: addrs_map_fst)
  from assms(1) d assms(3) have "chain g p (pre @ (a, x) # (new, v) # post)"
  proof (induction pre arbitrary: p)
    case Nil
    with assms(2) post ga gn show ?case by (auto split: option.splits)
  next
    case (Cons c pre)
    from Cons.prems have "fst c \<noteq> a" "fst c \<noteq> new" by auto
    then have "g (fst c) = f (fst c)" by (rule go)
    with Cons show ?case by (auto split: option.splits)
  qed
  then show ?thesis by (simp add: g_def)
qed

lemma chain_erase:
  assumes "chain f p (pre @ (a, x) # (b, y) # post)" and "f a = Some n" and "f b = Some t"
  shows "chain (f(a := Some (n\<lparr>next_node := next_node t\<rparr>), b := None)) p (pre @ (a, x) # post)"
proof -
  from assms(1) have d: "distinct (map fst (pre @ (a, x) # (b, y) # post))" by (rule chain_distinct)
  define g where "g = f(a := Some (n\<lparr>next_node := next_node t\<rparr>), b := None)"
  from d have ga: "g a = Some (n\<lparr>next_node := next_node t\<rparr>)"
    and go: "\<And>c. c \<noteq> a \<Longrightarrow> c \<noteq> b \<Longrightarrow> g c = f c"
    by (auto simp: g_def)
  from d have post: "\<And>q. chain g q post = chain f q post"
    by (intro chain_frame go) (auto simp: addrs_map_fst)
  from assms(1) d have "chain g p (pre @ (a, x) # post)"
  proof (induction pre arbitrary: p)
    case Nil
    with assms(2,3) post ga show ?case by (auto split: option.splits)
  next
    case (Cons c pre)
    from Cons.prems have "fst c \<noteq> a" "fst c \<noteq> b" by auto
    then have "g (fst c) = f (fst c)" by (rule go)
    with Cons show ?case by (auto split: option.splits)
  qed
  then show ?thesis by (simp add: g_def)
qed

lemma chain_Cons_elim:
  assumes "chain f (Some q) cs"
  obtains a n rest where "q = Cell a" "cs = (a, value n) # rest" "f a = Some n"
    "chain f (next_node n) rest" "a \<notin> addrs rest"
proof -
  from assms obtain c rest where cs: "cs = c # rest" by (cases cs) auto
  with assms obtain n where q: "q = Cell (fst c)" and n: "f (fst c) = Some n" "value n = snd c"
    "chain f (next_node n) rest"
    by (auto split: option.splits)
  from chain_distinct [OF assms] cs have "fst c \<notin> addrs rest" by (simp add: addrs_map_fst)
  with q n cs that [of "fst c" n rest] show thesis by (cases c) auto
qed

lemma PushFront_inv:
  assumes inv: "inv_with A m" and call: "PushFront c v m = Inr (u, m')"
  shows "inv_with (A(c := (length (heap m), v) # A c)) m'"
proof -
  from call obtain L p m1 where L: "obj m c = Some L"
    and new: "new_Node v (next_node (head' L)) m = Inr (p, m1)"
    and m': "m' = set_size c (size' L + 1) (set_next (Head c) (Some p) m1)"
    by (auto simp: PushFront_unfold split: option.splits sum.splits)
  note n = new_Node_Inr [OF new]
  let ?a = "length (heap m)"
  have fresh: "?a \<notin> addrs (A c)"
    using inv_with_chain [OF inv L] by (rule chain_fresh)
  show ?thesis
  proof (rule inv_with_update [OF inv])
    show "obj m' c = Some (L\<lparr>head' := (head' L)\<lparr>next_node := Some p\<rparr>, size' := size' L + 1\<rparr>)"
      by (simp add: m' n L)
    show "chain (cell m') (next_node (head' (L\<lparr>head' := (head' L)\<lparr>next_node := Some p\<rparr>,
             size' := size' L + 1\<rparr>))) ((?a, v) # A c)"
      using inv_with_chain [OF inv L] fresh by (simp add: m' n chain_upd)
    show "size' (L\<lparr>head' := (head' L)\<lparr>next_node := Some p\<rparr>, size' := size' L + 1\<rparr>)
            = length ((?a, v) # A c)"
      using inv_with_size [OF inv L] by simp
  qed (auto simp: m' n cell_def)
qed

lemma PopFront_inv:
  assumes inv: "inv_with A m" and call: "PopFront c m = Inr (u, m')"
  shows "inv_with (A(c := tl (A c))) m'"
proof -
  from call obtain L tmp t m2 where L: "obj m c = Some L" and sz: "size' L \<noteq> 0"
    and tmp: "next_node (head' L) = Some tmp" and t: "load m tmp = Some t"
    and del: "delete_Node tmp (set_next (Head c) (next_node t) m) = Inr m2"
    and m': "m' = set_size c (size' L - 1) m2"
    by (auto simp: PopFront_def split: option.splits sum.splits if_splits)
  from inv_with_chain [OF inv L] tmp obtain a n rest where a: "tmp = Cell a"
    and Ac: "A c = (a, value n) # rest" and n: "cell m a = Some n"
    and rest: "chain (cell m) (next_node n) rest" "a \<notin> addrs rest"
    by (auto elim: chain_Cons_elim)
  from t a n have tn: "t = n" by simp
  from delete_Node_Inr [OF del] a
  have c2: "cell m2 = (cell m)(a := None)"
    and o2: "obj m2 = obj (set_next (Head c) (next_node t) m)" by auto
  show ?thesis
  proof (rule inv_with_update [OF inv])
    show "obj m' c = Some (L\<lparr>head' := (head' L)\<lparr>next_node := next_node t\<rparr>, size' := size' L - 1\<rparr>)"
      by (simp add: m' o2 L)
    show "chain (cell m') (next_node (head' (L\<lparr>head' := (head' L)\<lparr>next_node := next_node t\<rparr>,
             size' := size' L - 1\<rparr>))) (tl (A c))"
      using rest by (simp add: m' c2 Ac tn chain_upd)
    show "size' (L\<lparr>head' := (head' L)\<lparr>next_node := next_node t\<rparr>, size' := size' L - 1\<rparr>)
            = length (tl (A c))"
      using inv_with_size [OF inv L] by simp
  qed (auto simp: m' c2 o2 Ac)
qed

lemma ins_split: "a \<notin> addrs pre \<Longrightarrow> ins a e (pre @ (a, x) # post) = pre @ (a, x) # e # post"
  by (induction pre) auto

lemma era_split: "a \<notin> addrs pre \<Longrightarrow> era a (pre @ (a, x) # post) = pre @ (a, x) # tl post"
  by (induction pre) auto

lemma chain_split:
  assumes "chain f p cs" and "a \<in> addrs cs"
  obtains pre n post where "cs = pre @ (a, value n) # post" "f a = Some n"
    "chain f (next_node n) post" "a \<notin> addrs pre" "a \<notin> addrs post"
proof -
  from addrs_split [OF assms(2)] obtain pre x post where cs: "cs = pre @ (a, x) # post" by blast
  from chain_append [OF assms(1) [unfolded cs]] obtain n where n: "f a = Some n" "value n = x"
    "chain f (next_node n) post" by auto
  from chain_distinct [OF assms(1)] cs have "a \<notin> addrs pre" "a \<notin> addrs post"
    by (auto simp: addrs_map_fst)
  with cs n that [of pre n post] show thesis by auto
qed

lemma InsertAfter_inv:
  assumes inv: "inv_with A m" and pos: "valid_pos c (A c) pos"
    and call: "InsertAfter c pos v m = Inr (it, m')"
  shows "inv_with (A(c := inserted pos (length (heap m), v) (A c))) m'"
    and "it = Some (Cell (length (heap m)))"
proof -
  from call obtain p n new_node m1 L' where p: "pos = Some p" and ld: "load m p = Some n"
    and new: "new_Node v (next_node n) m = Inr (new_node, m1)"
    and L': "obj (set_next p (Some new_node) m1) c = Some L'"
    and m': "m' = set_size c (size' L' + 1) (set_next p (Some new_node) m1)"
    and it: "it = Some new_node"
    by (auto simp: InsertAfter_unfold Let_def split: option.splits sum.splits)
  note nn = new_Node_Inr [OF new]
  let ?a = "length (heap m)"
  from it nn show "it = Some (Cell ?a)" by simp
  show "inv_with (A(c := inserted pos (?a, v) (A c))) m'"
  proof (cases p)
    case (Head c')
    with pos p have [simp]: "c' = c" by (auto simp: valid_pos_def)
    from ld Head obtain L where L: "obj m c = Some L" and n: "n = head' L" by auto
    from L' Head L nn have L'eq: "L' = L\<lparr>head' := (head' L)\<lparr>next_node := Some new_node\<rparr>\<rparr>" by simp
    have fresh: "?a \<notin> addrs (A c)"
      using inv_with_chain [OF inv L] by (rule chain_fresh)
    have ins: "inserted pos (?a, v) (A c) = (?a, v) # A c" by (simp add: inserted_def p Head)
    show ?thesis unfolding ins
    proof (rule inv_with_update [OF inv])
      show "obj m' c = Some (L'\<lparr>size' := size' L' + 1\<rparr>)"
        using L' by (simp add: m')
      show "chain (cell m') (next_node (head' (L'\<lparr>size' := size' L' + 1\<rparr>))) ((?a, v) # A c)"
        using inv_with_chain [OF inv L] fresh by (simp add: m' nn Head L'eq n chain_upd)
      show "size' (L'\<lparr>size' := size' L' + 1\<rparr>) = length ((?a, v) # A c)"
        using inv_with_size [OF inv L] by (simp add: L'eq)
    qed (auto simp: m' nn Head cell_def)
  next
    case (Cell a)
    with pos p have a: "a \<in> addrs (A c)" by (auto simp: valid_pos_def)
    then have "A c \<noteq> []" by auto
    with inv obtain L where L: "obj m c = Some L" by (cases "obj m c") (auto dest: inv_with_dead)
    from inv_with_chain [OF inv L] a obtain pre n' post where Ac: "A c = pre @ (a, value n') # post"
      and n': "cell m a = Some n'" and na: "a \<notin> addrs pre"
      by (rule chain_split)
    from ld Cell n' have [simp]: "n' = n" by simp
    have fresh: "?a \<notin> addrs (A c)"
      using inv_with_chain [OF inv L] by (rule chain_fresh)
    from n' have ane: "a \<noteq> ?a" by (auto simp: cell_def)
    from L' Cell L nn have L'eq: "L' = L" by simp
    have ins: "inserted pos (?a, v) (A c) = pre @ (a, value n) # (?a, v) # post"
      using na by (simp add: inserted_def p Cell Ac ins_split)
    have cm': "cell m' = (cell m)(?a := Some \<lparr>value = v, next_node = next_node n\<rparr>,
                 a := Some (n\<lparr>next_node := Some (Cell ?a)\<rparr>))"
      using n' ane by (simp add: m' Cell nn)
    show ?thesis unfolding ins
    proof (rule inv_with_update [OF inv])
      show "obj m' c = Some (L\<lparr>size' := size' L + 1\<rparr>)"
        using L by (simp add: m' Cell nn L'eq)
      show "chain (cell m') (next_node (head' (L\<lparr>size' := size' L + 1\<rparr>)))
              (pre @ (a, value n) # (?a, v) # post)"
        using chain_insert [OF inv_with_chain [OF inv L, unfolded Ac] n' [simplified] fresh [unfolded Ac]]
        by (simp add: cm')
      show "size' (L\<lparr>size' := size' L + 1\<rparr>) = length (pre @ (a, value n) # (?a, v) # post)"
        using inv_with_size [OF inv L] by (simp add: Ac)
    next
      fix b assume "b \<notin> addrs (A c)" "cell m b \<noteq> None"
      then show "cell m' b = cell m b" by (auto simp: cm' Ac cell_def)
    next
      fix b assume "b \<in> addrs (pre @ (a, value n) # (?a, v) # post)"
      then show "b \<in> addrs (A c) \<or> cell m b = None" by (auto simp: Ac cell_def)
    qed (simp add: m' Cell nn)
  qed
qed

lemma EraseAfter_inv:
  assumes inv: "inv_with A m" and pos: "valid_pos c (A c) pos"
    and call: "EraseAfter c pos m = Inr (it, m')"
  shows "inv_with (A(c := erased pos (A c))) m'"
    and "\<exists>n. deref m' pos = Some n \<and> it = next_node n"
proof -
  from call obtain L m3 where L: "obj m c = Some L"
    and body: "(if size' L \<noteq> 0 then erase_next c pos m else Inr m) = Inr m3"
    and it: "\<exists>n. deref m3 pos = Some n \<and> it = next_node n" and m': "m' = m3"
    by (auto simp: EraseAfter_def IsEmpty_def split: option.splits sum.splits)
  from it m' show "\<exists>n. deref m' pos = Some n \<and> it = next_node n" by simp
  note ch = inv_with_chain [OF inv L] and sz = inv_with_size [OF inv L]
  show "inv_with (A(c := erased pos (A c))) m'"
  proof (cases "size' L = 0")
    case True
    with body m' have mm: "m' = m" by simp
    from True sz have Ac: "A c = []" by simp
    with pos have "pos = Some (Head c)" by (simp add: valid_pos_def)
    with Ac have "A(c := erased pos (A c)) = A" by (simp add: erased_def fun_eq_iff)
    with inv mm show ?thesis by simp
  next
    case False
    with body obtain p n q t m2 L2 where p: "pos = Some p" and n: "load m p = Some n"
      and q: "next_node n = Some q" and t: "load m q = Some t"
      and del: "delete_Node q (set_next p (next_node t) m) = Inr m2"
      and L2: "obj m2 c = Some L2"
      and m3: "m3 = set_size c (size' L2 - 1) m2"
      by (auto simp: erase_next_def split: option.splits sum.splits)
    from pos show ?thesis unfolding valid_pos_def
    proof
      assume "pos = Some (Head c)"
      with p have p: "p = Head c" by simp
      with n L have nL: "n = head' L" by simp
      from ch q nL obtain b nb rest where b: "q = Cell b"
        and Ac: "A c = (b, value nb) # rest" and nb: "cell m b = Some nb"
        and rest: "chain (cell m) (next_node nb) rest" "b \<notin> addrs rest"
        by (auto elim: chain_Cons_elim)
      from t b nb have tn: "t = nb" by simp
      from delete_Node_Inr [OF del] b p
      have c2: "cell m2 = (cell m)(b := None)"
        and o2: "obj m2 = obj (set_next (Head c) (next_node t) m)" by auto
      from L2 o2 L have L2eq: "L2 = L\<lparr>head' := (head' L)\<lparr>next_node := next_node t\<rparr>\<rparr>" by simp
      have er: "erased pos (A c) = rest" by (simp add: erased_def \<open>pos = Some (Head c)\<close> Ac)
      show ?thesis unfolding er
      proof (rule inv_with_update [OF inv])
        show "obj m' c = Some (L2\<lparr>size' := size' L2 - 1\<rparr>)"
          using L2 by (simp add: m' m3)
        show "chain (cell m') (next_node (head' (L2\<lparr>size' := size' L2 - 1\<rparr>))) rest"
          using rest by (simp add: m' m3 c2 tn L2eq chain_upd)
        show "size' (L2\<lparr>size' := size' L2 - 1\<rparr>) = length rest"
          using sz by (simp add: Ac L2eq)
      qed (auto simp: m' m3 c2 o2 Ac)
    next
      assume "pos \<in> (\<lambda>a. Some (Cell a)) ` addrs (A c)"
      with p obtain a where p: "p = Cell a" and a: "a \<in> addrs (A c)" by auto
      from ch a obtain pre na post where Ac: "A c = pre @ (a, value na) # post"
        and na: "cell m a = Some na" and post: "chain (cell m) (next_node na) post"
        and npre: "a \<notin> addrs pre" and npost: "a \<notin> addrs post"
        by (rule chain_split)
      from n p na have [simp]: "na = n" by simp
      from post q obtain b nb rest where b: "q = Cell b"
        and po: "post = (b, value nb) # rest" and nb: "cell m b = Some nb"
        by (auto elim: chain_Cons_elim)
      from t b nb have tn: "t = nb" by simp
      from npost po have ab: "a \<noteq> b" by auto
      from delete_Node_Inr [OF del] b p na
      have c2: "cell m2 = (cell m)(a := Some (n\<lparr>next_node := next_node t\<rparr>), b := None)"
        and o2: "obj m2 = obj m" by auto
      from L2 o2 L have L2eq: "L2 = L" by simp
      have er: "erased pos (A c) = pre @ (a, value n) # rest"
        using npre by (simp add: erased_def \<open>pos = Some p\<close> p Ac po era_split)
      show ?thesis unfolding er
      proof (rule inv_with_update [OF inv])
        show "obj m' c = Some (L\<lparr>size' := size' L - 1\<rparr>)"
          by (simp add: m' m3 o2 L L2eq)
        show "chain (cell m') (next_node (head' (L\<lparr>size' := size' L - 1\<rparr>))) (pre @ (a, value n) # rest)"
          using chain_erase [OF ch [unfolded Ac po] na [simplified] nb]
          by (simp add: m' m3 c2 tn)
        show "size' (L\<lparr>size' := size' L - 1\<rparr>) = length (pre @ (a, value n) # rest)"
          using sz by (simp add: Ac po)
      next
        fix x assume "x \<notin> addrs (A c)" "cell m x \<noteq> None"
        then show "cell m' x = cell m x" by (auto simp: m' m3 c2 Ac po)
      next
        fix x assume "x \<in> addrs (pre @ (a, value n) # rest)"
        then show "x \<in> addrs (A c) \<or> cell m x = None" by (auto simp: Ac po)
      qed (simp add: m' m3 o2)
    qed
  qed
qed

lemma obj_new_ok_update [simp]: "obj (m\<lparr>new_ok := r\<rparr>) = obj m"
  by (simp add: obj_def fun_eq_iff)

lemma cell_new_ok_update [simp]: "cell (m\<lparr>new_ok := r\<rparr>) = cell m"
  by (simp add: cell_def fun_eq_iff)

section \<open>Assign and the constructors keep the invariant\<close>

lemma kept_refl: "kept N this m m"
  by (simp add: kept_def)

lemma kept_trans: "kept N this m m1 \<Longrightarrow> kept N this m1 m2 \<Longrightarrow> kept N this m m2"
  by (auto simp: kept_def)

lemma chain_last_next:
  "chain f p (pre @ [c]) \<Longrightarrow> \<exists>n. f (fst c) = Some n \<and> value n = snd c \<and> next_node n = None"
  by (drule chain_append) auto

lemma chain_Nil_iff: "chain f None cs \<longleftrightarrow> cs = []"
  by (cases cs) auto

lemma link_step:
  assumes b: "building N n this built last_new m"
    and new: "new_Node v None m = Inr (node, m1)"
  shows "\<exists>m2. link_node this last_new node m1 = Inr m2 \<and>
           building N n this (built @ [(length (heap m), v)]) (Some node) m2 \<and>
           kept N this m m2 \<and> new_ok m2 = new_ok m1"
proof -
  note nn = new_Node_Inr [OF new]
  let ?a = "length (heap m)"
  from b obtain L where L: "obj m this = Some L" "size' L = n"
    and ch: "chain (cell m) (next_node (head' L)) built"
    and ge: "\<forall>a\<in>addrs built. N \<le> a" and N: "N \<le> ?a"
    and ln: "built \<noteq> [] \<longrightarrow> last_new = Some (Cell (fst (last built)))"
    by (auto simp: building_def)
  from ch have fresh: "?a \<notin> addrs built" by (rule chain_fresh)
  show ?thesis
  proof (cases built rule: rev_cases)
    case Nil
    with ch have hd: "next_node (head' L) = None" by simp
    let ?m2 = "set_next (Head this) (Some node) m1"
    have "link_node this last_new node m1 = Inr ?m2"
      by (simp add: link_node_def nn L hd)
    moreover have "building N n this (built @ [(?a, v)]) (Some node) ?m2"
      using N by (simp add: building_def Nil nn L)
    moreover have "kept N this m ?m2"
      using N by (auto simp: kept_def nn L)
    ultimately show ?thesis by simp
  next
    case (snoc pre c)
    obtain l x where c: "c = (l, x)" by (cases c)
    note bu = snoc [unfolded c]
    from ln bu have lnew: "last_new = Some (Cell l)" by simp
    from chain_last_next [OF ch [unfolded bu]] obtain nc where
      nc: "cell m l = Some nc" "value nc = x" "next_node nc = None" by auto
    from ch bu obtain q where hd: "next_node (head' L) = Some q" by (cases pre) auto
    from fresh bu have ne: "l \<noteq> ?a" by auto
    from ge bu have cN: "N \<le> l" by auto
    let ?m2 = "set_next (Cell l) (Some node) m1"
    have "link_node this last_new node m1 = Inr ?m2"
      using ne by (simp add: link_node_def nn L hd lnew nc)
    moreover have "chain (cell ?m2) (next_node (head' L)) (pre @ (l, x) # [(?a, v)])"
      using chain_insert [OF ch [unfolded bu] nc(1) fresh [unfolded bu], of v] ne nc
      by (simp add: nn)
    then have "building N n this (built @ [(?a, v)]) (Some node) ?m2"
      using N ge by (auto simp: building_def bu nn L)
    moreover have "kept N this m ?m2"
      using N cN by (auto simp: kept_def nn L)
    ultimately show ?thesis by simp
  qed
qed

lemma Assign_init_spec:
  assumes "building N n this built last_new m"
  shows "case Assign_init this vs last_new m of
           Inr (u, m') \<Rightarrow>
             (\<exists>new ln. building N n this (built @ new) ln m' \<and> map snd new = vs) \<and>
             kept N this m m'
         | Inl (bad_alloc m') \<Rightarrow> kept N this m m'
         | Inl _ \<Rightarrow> False"
  using assms
proof (induction vs arbitrary: built last_new m)
  case Nil
  then show ?case by (auto simp: kept_refl intro!: exI [of _ "[]"])
next
  case (Cons v vs)
  show ?case
  proof (cases "new_Node v None m")
    case (Inl e)
    then show ?thesis
      by (auto simp: new_Node_unfold kept_def split: list.splits if_splits)
  next
    case (Inr r)
    then obtain node m1 where new: "new_Node v None m = Inr (node, m1)" by (cases r) auto
    from link_step [OF Cons.prems new] obtain m2 where
      lk: "link_node this last_new node m1 = Inr m2"
      and b2: "building N n this (built @ [(length (heap m), v)]) (Some node) m2"
      and k2: "kept N this m m2" by blast
    from Cons.IH [OF b2] show ?thesis
      by (auto simp: new lk split: sum.splits error.splits intro: kept_trans [OF k2])
  qed
qed

lemma new_Node_Inl:
  assumes "new_Node v nx m = Inl e"
  shows "\<exists>m'. e = bad_alloc m' \<and> obj m' = obj m \<and> cell m' = cell m \<and> heap m' = heap m"
  using assms by (auto simp: new_Node_unfold split: list.splits if_splits)

lemma Assign_done: "Assign this it it last_new m = Inr ((), m)"
  by (subst Assign_unfold) simp

lemma Assign_null: "it \<noteq> last_it \<Longrightarrow> deref m it = None \<Longrightarrow>
    Assign this it last_it last_new m =
      (case operator_new m of Inl e \<Rightarrow> Inl e | Inr m0 \<Rightarrow> Inl undefined_behaviour)"
  by (subst Assign_unfold) simp

lemma Assign_throw: "it \<noteq> last_it \<Longrightarrow> deref m it = Some src \<Longrightarrow>
    new_Node (value src) None m = Inl e \<Longrightarrow> Assign this it last_it last_new m = Inl e"
  by (subst Assign_unfold) simp

lemma Assign_link_fail: "it \<noteq> last_it \<Longrightarrow> deref m it = Some src \<Longrightarrow>
    new_Node (value src) None m = Inr (node, m1) \<Longrightarrow> link_node this last_new node m1 = Inl e \<Longrightarrow>
    Assign this it last_it last_new m = Inl e"
  by (subst Assign_unfold) simp

lemma Assign_inc_fail: "it \<noteq> last_it \<Longrightarrow> deref m it = Some src \<Longrightarrow>
    new_Node (value src) None m = Inr (node, m1) \<Longrightarrow> link_node this last_new node m1 = Inr m2 \<Longrightarrow>
    pre_increment it m2 = Inl e \<Longrightarrow> Assign this it last_it last_new m = Inl e"
  by (subst Assign_unfold) simp

lemma Assign_step: "it \<noteq> last_it \<Longrightarrow> deref m it = Some src \<Longrightarrow>
    new_Node (value src) None m = Inr (node, m1) \<Longrightarrow> link_node this last_new node m1 = Inr m2 \<Longrightarrow>
    pre_increment it m2 = Inr it' \<Longrightarrow>
    Assign this it last_it last_new m = Assign this it' last_it (Some node) m2"
  by (subst Assign_unfold) simp

lemma Assign_spec:
  assumes "building N n this built last_new m"
    and "chain (cell m) it src" and "\<forall>a\<in>addrs src. a < N"
  shows "case Assign this it None last_new m of
           Inr (u, m') \<Rightarrow>
             (\<exists>new ln. building N n this (built @ new) ln m' \<and> map snd new = map snd src) \<and>
             kept N this m m'
         | Inl (bad_alloc m') \<Rightarrow> kept N this m m'
         | Inl _ \<Rightarrow> False"
  using assms
proof (induction src arbitrary: it built last_new m)
  case Nil
  then show ?case by (auto simp: Assign_done kept_refl intro!: exI [of _ "[]"])
next
  case (Cons c src)
  from Cons.prems(2) obtain ns where it: "it = Some (Cell (fst c))"
    and ns: "cell m (fst c) = Some ns" "value ns = snd c"
    and rest: "chain (cell m) (next_node ns) src"
    by (auto split: option.splits)
  from it ns have d: "it \<noteq> None" "deref m it = Some ns" by (simp_all add: deref_def)
  show ?case
  proof (cases "new_Node (value ns) None m")
    case (Inl e)
    from new_Node_Inl [OF Inl] Assign_throw [OF d Inl] show ?thesis
      by (auto simp: kept_def)
  next
    case (Inr r)
    then obtain node m1 where new: "new_Node (value ns) None m = Inr (node, m1)" by (cases r) auto
    from link_step [OF Cons.prems(1) new] obtain m2 where
      lk: "link_node this last_new node m1 = Inr m2"
      and b2: "building N n this (built @ [(length (heap m), value ns)]) (Some node) m2"
      and k2: "kept N this m m2" by blast
    from Cons.prems(3) have lt: "fst c < N" "\<forall>a\<in>addrs src. a < N" by auto
    with k2 have same: "cell m2 (fst c) = cell m (fst c)" "\<And>a. a \<in> addrs src \<Longrightarrow> cell m2 a = cell m a"
      by (auto simp: kept_def)
    then have inc: "pre_increment it m2 = Inr (next_node ns)"
      by (simp add: pre_increment_def it ns)
    from rest same(2) have rest2: "chain (cell m2) (next_node ns) src"
      by (simp add: chain_frame [of src "cell m2" "cell m"])
    note step = Assign_step [OF d new lk inc]
    have eq: "(length (heap m), value ns) # new = [(length (heap m), value ns)] @ new" for new
      by simp
    from Cons.IH [OF b2 rest2 lt(2)] show ?thesis
      unfolding step
    proof (cases "Assign this (next_node ns) None (Some node) m2")
      case (Inl e)
      with Cons.IH [OF b2 rest2 lt(2)] k2 show
        "case Assign this (next_node ns) None (Some node) m2 of
           Inl (bad_alloc m') \<Rightarrow> kept N this m m' | Inl _ \<Rightarrow> False
         | Inr (u, m') \<Rightarrow>
             (\<exists>new ln. building N n this (built @ new) ln m' \<and> map snd new = map snd (c # src)) \<and>
             kept N this m m'"
        by (cases e) (auto intro: kept_trans)
    next
      case (Inr r)
      obtain u m' where r: "r = (u, m')" by (cases r)
      from Cons.IH [OF b2 rest2 lt(2)] Inr r obtain new ln where
        b: "building N n this ((built @ [(length (heap m), value ns)]) @ new) ln m'"
        and v: "map snd new = map snd src" and k: "kept N this m2 m'" by auto
      from b have "building N n this (built @ ((length (heap m), value ns) # new)) ln m'" by simp
      moreover from v ns have "map snd ((length (heap m), value ns) # new) = map snd (c # src)" by simp
      ultimately have "\<exists>new ln. building N n this (built @ new) ln m' \<and> map snd new = map snd (c # src)"
        by blast
      with kept_trans [OF k2 k] show
        "case Assign this (next_node ns) None (Some node) m2 of
           Inl (bad_alloc m') \<Rightarrow> kept N this m m' | Inl _ \<Rightarrow> False
         | Inr (u, m') \<Rightarrow>
             (\<exists>new ln. building N n this (built @ new) ln m' \<and> map snd new = map snd (c # src)) \<and>
             kept N this m m'"
        by (simp add: Inr r)
    qed
  qed
qed

lemma link_node_kept:
  assumes "link_node this last_new node m1 = Inr m2"
    and "last_new = None \<or> (\<exists>a\<ge>N. last_new = Some (Cell a))"
  shows "kept N this m1 m2"
  using assms
  by (auto simp: link_node_def kept_def split: option.splits if_splits)

lemma Assign_kept:
  assumes "Assign this it last_it last_new m = Inl (bad_alloc m')"
    and "last_new = None \<or> (\<exists>a\<ge>N. last_new = Some (Cell a))" and "N \<le> length (heap m)"
  shows "kept N this m m'"
  using assms
proof (induction this it last_it last_new m rule: Assign.induct)
  case (1 this it last_it last_new m)
  note call = "1.prems"(1)
  from call have ne: "it \<noteq> last_it" by (auto simp: Assign_done)
  show ?case
  proof (cases "deref m it")
    case None
    with call ne have "operator_new m = Inl (bad_alloc m')"
      by (auto simp: Assign_null split: sum.splits)
    from operator_new_Inl [OF this] show ?thesis by (auto simp: kept_def)
  next
    case (Some src)
    note src = Some
    show ?thesis
    proof (cases "new_Node (value src) None m")
      case (Inl e)
      from new_Node_Inl [OF Inl] Assign_throw [OF ne src Inl] call show ?thesis
        by (auto simp: kept_def)
    next
      case (Inr r)
      then obtain node m1 where new: "new_Node (value src) None m = Inr (node, m1)" by (cases r) auto
      from new_Node_steps [OF new] obtain m0 where on: "operator_new m = Inr m0"
        and cn: "construct_Node (value src) None m0 = (node, m1)" by blast
      from src operator_new_Inr(5) [OF on] have src0: "deref m0 it = Some src" by simp
      note nn = new_Node_Inr [OF new]
      from call obtain m2 where lk: "link_node this last_new node m1 = Inr m2"
        by (cases "link_node this last_new node m1")
           (auto simp: Assign_link_fail [OF ne src new] link_node_def split: option.splits if_splits)
      from call obtain it' where inc: "pre_increment it m2 = Inr it'"
        by (cases "pre_increment it m2")
           (auto simp: Assign_inc_fail [OF ne src new lk] pre_increment_def split: option.splits)
      from call have rec: "Assign this it' last_it (Some node) m2 = Inl (bad_alloc m')"
        by (simp add: Assign_step [OF ne src new lk inc])
      from nn "1.prems"(3) have k1: "kept N this m m1" by (auto simp: kept_def cell_def)
      from link_node_kept [OF lk "1.prems"(2)] have k2: "kept N this m1 m2" .
      from k2 nn "1.prems"(3) have N2: "N \<le> length (heap m2)" by (simp add: kept_def)
      have "kept N this m2 m'"
        using "1.prems"(3) nn
        by (intro "1.IH" [OF ne on src0 cn [symmetric] lk inc rec] N2) auto
      with k1 k2 show ?thesis by (blast intro: kept_trans)
    qed
  qed
qed

lemma new_object_facts:
  assumes "new_object d n m = (this, m1)"
  shows "this = length (lists m)" and "obj m this = None"
    and "obj m1 = (obj m)(this := Some \<lparr>head' = \<lparr>value = d, next_node = None\<rparr>, size' = n\<rparr>)"
    and "cell m1 = cell m" and "heap m1 = heap m" and "new_ok m1 = new_ok m"
  using assms by (auto simp: new_object_def obj_def cell_def fun_eq_iff nth_append)

lemma new_object_building:
  assumes "new_object d n m = (this, m1)"
  shows "building (length (heap m)) n this [] None m1"
  by (simp add: building_def new_object_facts [OF assms])

lemma obj_kill [simp]:
  "obj (m\<lparr>lists := (lists m)[c := None]\<rparr>) = (obj m)(c := None)"
  by (auto simp: obj_def fun_eq_iff)

lemma cell_lists_update [simp]: "cell (m\<lparr>lists := l\<rparr>) = cell m"
  by (simp add: cell_def fun_eq_iff)

lemma inv_with_same:
  assumes inv: "inv_with A m" and o: "obj m' = obj m"
    and c: "\<And>a. cell m a \<noteq> None \<Longrightarrow> cell m' a = cell m a"
  shows "inv_with A m'"
  unfolding inv_with_def
proof (intro conjI allI impI)
  fix c L assume L: "obj m' c = Some L"
  with o have L': "obj m c = Some L" by simp
  have "chain (cell m') (next_node (head' L)) (A c) = chain (cell m) (next_node (head' L)) (A c)"
    by (rule chain_frame) (auto intro!: c dest: inv_with_live [OF inv])
  with inv_with_chain [OF inv L'] show "chain (cell m') (next_node (head' L)) (A c)" by simp
  from inv_with_size [OF inv L'] show "size' L = length (A c)" .
next
  fix c assume "obj m' c = None"
  with o inv show "A c = []" by (simp add: inv_with_dead)
next
  fix c c' a assume "c \<noteq> c'" "a \<in> addrs (A c)"
  with inv show "a \<notin> addrs (A c')" by (rule inv_with_disjoint)
qed

lemma inv_with_built:
  assumes inv: "inv_with A m" and no: "new_object d n m = (this, m1)"
    and b: "building (length (heap m)) n this new ln m'"
    and k: "kept (length (heap m)) this m1 m'" and len: "n = length new"
  shows "inv_with (A(this := new)) m'"
proof -
  note f = new_object_facts [OF no]
  from b obtain L where L: "obj m' this = Some L" "size' L = n"
    "chain (cell m') (next_node (head' L)) new" and ge: "\<forall>a\<in>addrs new. length (heap m) \<le> a"
    by (auto simp: building_def)
  show ?thesis
  proof (rule inv_with_update [OF inv])
    show "obj m' this = Some L" by fact
    show "chain (cell m') (next_node (head' L)) new" by fact
    show "size' L = length new" using L len by simp
  next
    fix c assume "c \<noteq> this"
    with k f show "obj m' c = obj m c" by (simp add: kept_def)
  next
    fix a assume "cell m a \<noteq> None"
    then have "a < length (heap m)" by (auto simp: cell_def split: if_splits)
    with k f show "cell m' a = cell m a" by (simp add: kept_def)
  next
    fix a assume "a \<in> addrs new"
    with ge have "length (heap m) \<le> a" by simp
    then show "a \<in> addrs (A this) \<or> cell m a = None" by (simp add: cell_def)
  qed
qed

lemma inv_with_unwound:
  assumes inv: "inv_with A m" and no: "new_object d n m = (this, m1)"
    and k: "kept (length (heap m)) this m1 m'"
  shows "inv_with A (m'\<lparr>lists := (lists m')[this := None]\<rparr>)"
proof (rule inv_with_same [OF inv])
  note f = new_object_facts [OF no]
  show "obj (m'\<lparr>lists := (lists m')[this := None]\<rparr>) = obj m"
    using k f by (auto simp: kept_def fun_eq_iff)
  fix a assume "cell m a \<noteq> None"
  then have "a < length (heap m)" by (auto simp: cell_def split: if_splits)
  with k f show "cell (m'\<lparr>lists := (lists m')[this := None]\<rparr>) a = cell m a"
    by (simp add: kept_def)
qed

lemma default_inv:
  assumes inv: "inv_with A m" and call: "SingleLinkedList_default d m = Inr (this, m')"
  shows "inv_with A m'" and "obj m this = None" and "obj m' this \<noteq> None"
proof -
  from call obtain m1 where no: "new_object d 0 m = (this, m1)"
    and m': "m' = set_next (Head this) None m1"
    by (auto simp: SingleLinkedList_default_def split: prod.splits)
  note f = new_object_facts [OF no]
  show "obj m this = None" by (rule f)
  show "obj m' this \<noteq> None" by (simp add: m' f)
  have "inv_with (A(this := [])) m'"
    by (rule inv_with_built [OF inv no]) (auto simp: building_def kept_def m' f)
  moreover from inv f have "A this = []" by (simp add: inv_with_dead)
  then have "A(this := []) = A" by (simp add: fun_eq_iff)
  ultimately show "inv_with A m'" by simp
qed

lemma init_inv:
  assumes inv: "inv_with A m"
  shows "case SingleLinkedList_init d vs m of
           Inr (this, m') \<Rightarrow>
             this = length (lists m) \<and> (\<exists>new. inv_with (A(this := new)) m' \<and> map snd new = vs)
         | Inl (bad_alloc m') \<Rightarrow> inv_with A m'
         | Inl _ \<Rightarrow> False"
proof -
  obtain this m1 where no: "new_object d (length vs) m = (this, m1)"
    by (cases "new_object d (length vs) m")
  note f = new_object_facts [OF no]
  note spec = Assign_init_spec [OF new_object_building [OF no], of vs]
  show ?thesis
  proof (cases "Assign_init this vs None m1")
    case (Inl e)
    with spec obtain m' where e: "e = bad_alloc m'" and k: "kept (length (heap m)) this m1 m'"
      by (cases e) auto
    from inv_with_unwound [OF inv no k] show ?thesis
      by (simp add: SingleLinkedList_init_def no Inl e unwind_def)
  next
    case (Inr r)
    obtain u m' where r: "r = (u, m')" by (cases r)
    from spec Inr r obtain new ln where b: "building (length (heap m)) (length vs) this new ln m'"
      and v: "map snd new = vs" and k: "kept (length (heap m)) this m1 m'" by auto
    from v have "length vs = length new" by auto
    from inv_with_built [OF inv no b k this] v
    have ex: "\<exists>new. inv_with (A(this := new)) m' \<and> map snd new = vs" by blast
    have "SingleLinkedList_init d vs m = Inr (this, m')"
      by (simp add: SingleLinkedList_init_def no Inr r)
    with ex f(1) show ?thesis by simp
  qed
qed

lemma copy_inv:
  assumes inv: "inv_with A m" and live: "obj m other \<noteq> None"
  shows "case SingleLinkedList_copy d other m of
           Inr (this, m') \<Rightarrow>
             this = length (lists m) \<and> this \<noteq> other \<and> obj m' this \<noteq> None \<and>
             (\<forall>c. c \<noteq> this \<longrightarrow> obj m' c = obj m c) \<and>
             (\<exists>new. inv_with (A(this := new)) m' \<and> map snd new = map snd (A other))
         | Inl (bad_alloc m') \<Rightarrow> inv_with A m'
         | Inl _ \<Rightarrow> False"
proof -
  from live obtain R where R: "obj m other = Some R" by auto
  obtain this m1 where no: "new_object d (size' R) m = (this, m1)"
    by (cases "new_object d (size' R) m")
  note f = new_object_facts [OF no]
  from R f have ne: "this \<noteq> other" by auto
  with R f have R1: "obj m1 other = Some R" by simp
  have src: "chain (cell m1) (next_node (head' R)) (A other)"
    using inv_with_chain [OF inv R] by (simp add: f)
  have lt: "\<forall>a\<in>addrs (A other). a < length (heap m)"
  proof
    fix a assume "a \<in> addrs (A other)"
    from inv_with_live [OF inv this] show "a < length (heap m)"
      by (auto dest: cell_Some_bound)
  qed
  note spec = Assign_spec [OF new_object_building [OF no] src lt]
  have unf: "SingleLinkedList_copy d other m =
      (case Assign this (next_node (head' R)) None None m1 of
         Inl e \<Rightarrow> Inl (unwind this e) | Inr (u, m2) \<Rightarrow> Inr (this, m2))"
    by (simp add: SingleLinkedList_copy_def GetSize_def R no list_begin_def list_end_def R1)
  show ?thesis
  proof (cases "Assign this (next_node (head' R)) None None m1")
    case (Inl e)
    with spec obtain m' where e: "e = bad_alloc m'" and k: "kept (length (heap m)) this m1 m'"
      by (cases e) auto
    from inv_with_unwound [OF inv no k] show ?thesis
      by (simp add: unf Inl e unwind_def)
  next
    case (Inr r)
    obtain u m' where r: "r = (u, m')" by (cases r)
    from spec Inr r obtain new ln where b: "building (length (heap m)) (size' R) this new ln m'"
      and v: "map snd new = map snd (A other)" and k: "kept (length (heap m)) this m1 m'" by auto
    from v have "length new = length (A other)" by (rule map_eq_imp_length_eq)
    with inv_with_size [OF inv R] have "size' R = length new" by simp
    from inv_with_built [OF inv no b k this] v
    have ex: "\<exists>new. inv_with (A(this := new)) m' \<and> map snd new = map snd (A other)" by blast
    from b have live: "obj m' this \<noteq> None" by (auto simp: building_def)
    from k f have same: "\<forall>c. c \<noteq> this \<longrightarrow> obj m' c = obj m c" by (simp add: kept_def)
    have "SingleLinkedList_copy d other m = Inr (this, m')"
      by (simp add: unf Inr r)
    with ex f(1) ne live same show ?thesis by simp
  qed
qed

section \<open>Cursor copies, thrown allocations and the counting traversal\<close>

lemma inv_with_cells: "inv_with A m \<Longrightarrow> cells m c cs \<Longrightarrow> cs = A c"
  by (auto simp: cells_def split: option.splits dest: inv_with_chain chain_unique)

lemma inv_with_cellsI: "inv_with A m \<Longrightarrow> obj m c \<noteq> None \<Longrightarrow> cells m c (A c)"
  by (auto simp: cells_def dest: inv_with_chain)

lemma new_Node_same:
  assumes "new_Node v nx m = Inr (p, m1)"
  shows "obj m1 = obj m" and "cell m a \<noteq> None \<Longrightarrow> cell m1 a = cell m a"
  using new_Node_Inr [OF assms] by (auto simp: cell_def)

lemma BasicIterator_copy_inv:
  assumes inv: "inv_with A m" and call: "BasicIterator_copy it m = Inr (it', m')"
  shows "inv_with A m'" and "it' = it"
proof -
  from call show "it' = it"
    by (auto simp: BasicIterator_copy_unfold split: if_splits option.splits sum.splits)
  show "inv_with A m'"
  proof (cases "it = None")
    case True
    with call inv show ?thesis by (simp add: BasicIterator_copy_unfold)
  next
    case False
    with call obtain n :: "'a Node" and p where "new_Node (value n) (next_node n) m = Inr (p, m')"
      by (auto simp: BasicIterator_copy_unfold split: option.splits sum.splits)
    from inv new_Node_same [OF this] show ?thesis by (rule inv_with_same)
  qed
qed

lemma PushFront_thrown:
  assumes inv: "inv_with A m" and call: "PushFront c v m = Inl (bad_alloc m')"
  shows "inv_with A m'"
proof -
  from call have "operator_new m = Inl (bad_alloc m')"
    by (auto simp: PushFront_def split: option.splits sum.splits prod.splits)
  from operator_new_Inl [OF this] inv show ?thesis by (auto intro: inv_with_same)
qed

lemma InsertAfter_thrown:
  assumes inv: "inv_with A m" and call: "InsertAfter c pos v m = Inl (bad_alloc m')"
  shows "inv_with A m'"
proof -
  from call have "operator_new m = Inl (bad_alloc m')"
    by (auto simp: InsertAfter_def Let_def split: option.splits sum.splits prod.splits)
  from operator_new_Inl [OF this] inv show ?thesis by (auto intro: inv_with_same)
qed

lemma copy_live:
  "SingleLinkedList_copy d other m = Inr r \<Longrightarrow> obj m other \<noteq> None"
  "SingleLinkedList_copy d other m = Inl (bad_alloc m') \<Longrightarrow> obj m other \<noteq> None"
  by (auto simp: SingleLinkedList_copy_def GetSize_def split: option.splits)

lemma start_inv: "inv_with (\<lambda>c. []) (start oks)"
  by (simp add: inv_with_def start_def obj_def)

lemma std_distance_chain:
  "chain (cell m) p cs \<Longrightarrow> std_distance m p None n = Some (Inr (n + length cs))"
proof (induction cs arbitrary: p n)
  case Nil
  then show ?case by (simp add: std_distance.simps)
next
  case (Cons c cs)
  then obtain nd where p: "p = Some (Cell (fst c))" and nd: "cell m (fst c) = Some nd"
    and rest: "chain (cell m) (next_node nd) cs"
    by (auto split: option.splits)
  from Cons.IH [OF rest, of "Suc n"] show ?case
    by (subst std_distance.simps) (simp add: p nd pre_increment_def)
qed

section \<open>Facts about single calls\<close>

lemma cells_cong: "obj m' c = obj m c \<Longrightarrow> cell m' = cell m \<Longrightarrow> cells m' c cs = cells m c cs"
  by (simp add: cells_def split: option.splits)

lemma PopFrontI:
  "obj m this = Some L \<Longrightarrow> size' L \<noteq> 0 \<Longrightarrow> next_node (head' L) = Some tmp \<Longrightarrow>
   load m tmp = Some t \<Longrightarrow> delete_Node tmp (set_next (Head this) (next_node t) m) = Inr m2 \<Longrightarrow>
   PopFront this m = Inr ((), set_size this (size' L - 1) m2)"
  by (simp add: PopFront_def)

lemma InsertAfter_before_begin:
  "InsertAfter this (Some (Head this)) v m =
     (case PushFront this v m of
        Inl e \<Rightarrow> Inl e
      | Inr (u, m') \<Rightarrow> Inr (Some (Cell (length (heap m))), m'))"
proof (cases "obj m this")
  case None
  then show ?thesis by (simp add: InsertAfter_unfold PushFront_unfold split: sum.splits)
next
  case (Some L)
  show ?thesis
  proof (cases "new_Node v (next_node (head' L)) m")
    case (Inl e)
    with Some show ?thesis by (simp add: InsertAfter_unfold PushFront_unfold)
  next
    case (Inr r)
    obtain p m1 where r: "r = (p, m1)" by (cases r)
    note nn = new_Node_Inr [OF Inr [unfolded r]]
    from Some show ?thesis
      by (simp add: InsertAfter_unfold PushFront_unfold Inr r nn Let_def)
  qed
qed

lemma PushFront_first:
  assumes "PushFront this v m = Inr (u, m')"
  shows "list_begin this m' = Inr (Some (Cell (length (heap m))))"
    and "\<exists>n. load m' (Cell (length (heap m))) = Some n \<and> value n = v"
    and "obj m this \<noteq> None" and "\<exists>r. new_ok m = True # r"
proof -
  from assms obtain L p m1 where L: "obj m this = Some L"
    and new: "new_Node v (next_node (head' L)) m = Inr (p, m1)"
    and m': "m' = set_size this (size' L + 1) (set_next (Head this) (Some p) m1)"
    by (auto simp: PushFront_unfold split: option.splits sum.splits)
  note nn = new_Node_Inr [OF new]
  show "list_begin this m' = Inr (Some (Cell (length (heap m))))"
    by (simp add: list_begin_def m' nn L)
  show "\<exists>n. load m' (Cell (length (heap m))) = Some n \<and> value n = v"
    by (simp add: m' nn)
  from L show "obj m this \<noteq> None" by simp
  from nn show "\<exists>r. new_ok m = True # r" by simp
qed

lemma PushFront_returns:
  assumes "obj m this \<noteq> None" and "new_ok m = True # r"
  shows "\<exists>m'. PushFront this v m = Inr ((), m')"
  using assms by (auto simp: PushFront_unfold new_Node_unfold)

lemma BasicIterator_copy_facts:
  assumes "BasicIterator_copy (Some p) m = Inr (it, m1)"
  shows "it = Some p" and "obj m1 = obj m" and "\<exists>r. new_ok m = True # r"
proof -
  from assms obtain n :: "'a Node" and q where new: "new_Node (value n) (next_node n) m = Inr (q, m1)"
    and it: "it = Some p"
    by (auto simp: BasicIterator_copy_unfold split: option.splits sum.splits)
  note nn = new_Node_Inr [OF new]
  from it show "it = Some p" .
  from nn show "obj m1 = obj m" by simp
  from nn show "\<exists>r. new_ok m = True # r" by simp
qed

lemma inv_with_empty:
  assumes "inv_with A m" and "obj m c = Some L" and "size' L = 0"
  shows "next_node (head' L) = None" and "A c = []"
proof -
  from inv_with_size [OF assms(1,2)] assms(3) show "A c = []" by simp
  with inv_with_chain [OF assms(1,2)] show "next_node (head' L) = None" by simp
qed

lemma cell_heap_kill [simp]:
  "cell (m\<lparr>heap := (heap m)[b := None]\<rparr>) = (cell m)(b := None)"
  by (auto simp: cell_def fun_eq_iff)

lemma obj_heap_update [simp]: "obj (m\<lparr>heap := h\<rparr>) = obj m"
  by (simp add: obj_def fun_eq_iff)

lemma erase_next_Head:
  assumes "obj m c = Some L" and "next_node (head' L) = Some (Cell b)" and "cell m b = Some t"
  shows "erase_next c (Some (Head c)) m =
           Inr (set_size c (size' L - 1)
                  ((set_next (Head c) (next_node t) m)
                     \<lparr>heap := (heap (set_next (Head c) (next_node t) m))[b := None]\<rparr>))"
  using assms by (simp add: erase_next_def delete_Node_def)

lemma erase_next_Cell:
  assumes "obj m c = Some L" and "cell m a = Some n" and "next_node n = Some (Cell b)"
    and "cell m b = Some t" and "a \<noteq> b"
  shows "erase_next c (Some (Cell a)) m =
           Inr (set_size c (size' L - 1)
                  ((set_next (Cell a) (next_node t) m)
                     \<lparr>heap := (heap (set_next (Cell a) (next_node t) m))[b := None]\<rparr>))"
  using assms by (simp add: erase_next_def delete_Node_def)

lemmas eval_defs = start_def SingleLinkedList_init_def SingleLinkedList_default_def
  SingleLinkedList_copy_def new_object_def new_Node_def operator_new_def construct_Node_def link_node_def obj_def cell_def load_def
  deref_def set_next_def set_size_def delete_Node_def unwind_def GetSize_def IsEmpty_def
  list_begin_def list_end_def before_begin_def PushFront_def PopFront_def InsertAfter_def
  EraseAfter_def erase_next_def pre_increment_def BasicIterator_copy_def post_increment_def
  post_increment_const_def

lemmas example_defs = mk_node_def list_object_def mem_empty_def mem_7_def mem_7_9_def mem_5_7_9_def
  mem_7_9_after_def mem_9_def mem_1_def mem_5_def mem_5_converted_def mem_empty_converted_def
  mem_7_erased_def mem_10_20_full_def mem_10_20_def mem_10_20_copied_def mem_7_copied_def mem_7_copy_pushed_def mem_12_9_def mem_12_9_failed_def

section \<open>The example memories are reachable\<close>

lemma example_steps:
  "SingleLinkedList_default 0 (start [True, True, True]) = Inr (0, mem_empty)"
  "PushFront 0 7 mem_empty = Inr ((), mem_7)"
  "InsertAfter 0 (Some (Cell 0)) 9 mem_7 = Inr (Some (Cell 1), mem_7_9)"
  "PushFront 0 5 mem_7_9 = Inr ((), mem_5_7_9)"
  "EraseAfter 0 (before_begin 0) mem_5_7_9 = Inr (Some (Cell 0), mem_7_9_after)"
  "PopFront 0 mem_7_9_after = Inr ((), mem_9)"
  by (simp_all add: eval_defs example_defs)

lemma example_cells:
  "cells mem_empty 0 []"
  "cells mem_7 0 [(0, 7)]"
  "cells mem_7_9 0 [(0, 7), (1, 9)]"
  "cells mem_5_7_9 0 [(2, 5), (0, 7), (1, 9)]"
  "cells mem_7_9_after 0 [(0, 7), (1, 9)]"
  "cells mem_9 0 [(1, 9)]"
  by (simp_all add: cells_def obj_def cell_def example_defs)

lemma example_reachable:
  "reachable mem_empty" "reachable mem_7" "reachable mem_7_9" "reachable mem_5_7_9"
  "reachable mem_7_9_after" "reachable mem_9"
proof -
  show r0: "reachable mem_empty"
    by (rule default_constructed [OF at_start example_steps(1)])
  then show r1: "reachable mem_7" by (rule pushed [OF _ example_steps(2)])
  then show r2: "reachable mem_7_9"
    by (rule inserted_after [OF _ example_cells(2) _ example_steps(3)]) (simp add: valid_pos_def)
  then show r3: "reachable mem_5_7_9" by (rule pushed [OF _ example_steps(4)])
  then show r4: "reachable mem_7_9_after"
    by (rule erased_after [OF _ example_cells(4) _ example_steps(5)])
       (simp add: valid_pos_def before_begin_def)
  then show "reachable mem_9" by (rule popped [OF _ example_steps(6)])
qed

lemma mem_1_built: "SingleLinkedList_init 0 [1] (start [True]) = Inr (0, mem_1)"
  by (simp add: eval_defs example_defs)

lemma mem_1_reachable: "reachable mem_1"
  by (rule init_constructed [OF at_start mem_1_built])

section \<open>The comparison loops on chains\<close>

lemma first_difference_less_iff:
  "length xs = length ys \<Longrightarrow>
   first_difference_less xs ys \<longleftrightarrow>
     (\<exists>i<length xs. take i xs = take i ys \<and> xs ! i < ys ! i)"
proof (induction xs ys rule: list_induct2)
  case Nil
  then show ?case by simp
next
  case (Cons x xs y ys)
  show ?case
  proof (cases "x = y")
    case True
    have "(\<exists>i<length (x # xs). take i (x # xs) = take i (y # ys) \<and> (x # xs) ! i < (y # ys) ! i)
          \<longleftrightarrow> (\<exists>i<length xs. take i xs = take i ys \<and> xs ! i < ys ! i)"
      (is "?L \<longleftrightarrow> ?R")
    proof
      assume ?L
      then obtain i where i: "i < length (x # xs)" "take i (x # xs) = take i (y # ys)"
        "(x # xs) ! i < (y # ys) ! i" by blast
      with True obtain j where "i = Suc j" by (cases i) auto
      with i show ?R by auto
    next
      assume ?R
      then obtain i where "i < length xs" "take i xs = take i ys" "xs ! i < ys ! i" by blast
      with True show ?L by (intro exI [of _ "Suc i"]) simp
    qed
    with Cons True show ?thesis by simp
  next
    case False
    have "(\<exists>i<length (x # xs). take i (x # xs) = take i (y # ys) \<and> (x # xs) ! i < (y # ys) ! i)
          \<longleftrightarrow> x < y" (is "?L \<longleftrightarrow> _")
    proof
      assume ?L
      then obtain i where i: "i < length (x # xs)" "take i (x # xs) = take i (y # ys)"
        "(x # xs) ! i < (y # ys) ! i" by blast
      with False show "x < y" by (cases i) auto
    next
      assume "x < y"
      then show ?L by (intro exI [of _ 0]) simp
    qed
    with False show ?thesis by simp
  qed
qed

lemma spec_equal_iff: "spec_equal xs ys \<longleftrightarrow> xs = ys"
  by (auto simp: spec_equal_def list_eq_iff_nth_eq)

lemma std_equal_chain:
  "chain (cell m) p xs \<Longrightarrow> chain (cell m) q ys \<Longrightarrow>
   std_equal m p None q None = Some (Inr (map snd xs = map snd ys))"
proof (induction xs arbitrary: p q ys)
  case Nil
  then show ?case by (cases ys) (auto simp: std_equal.simps)
next
  case (Cons x xs)
  from Cons.prems(1) obtain n1 where p: "p = Some (Cell (fst x))" and n1: "cell m (fst x) = Some n1"
    "value n1 = snd x" and r1: "chain (cell m) (next_node n1) xs"
    by (auto split: option.splits)
  show ?case
  proof (cases ys)
    case Nil
    with Cons.prems(2) p show ?thesis by (simp add: std_equal.simps)
  next
    case (Cons y ys')
    with Cons.prems(2) obtain n2 where q: "q = Some (Cell (fst y))" and n2: "cell m (fst y) = Some n2"
      "value n2 = snd y" and r2: "chain (cell m) (next_node n2) ys'"
      by (auto split: option.splits)
    from Cons.IH [OF r1 r2] show ?thesis
      by (subst std_equal.simps) (simp add: p q deref_def n1 n2 Cons)
  qed
qed

lemma std_lexicographical_compare_chain:
  "chain (cell m) p xs \<Longrightarrow> chain (cell m) q ys \<Longrightarrow> length xs = length ys \<Longrightarrow>
   std_lexicographical_compare m p None q None
     = Some (Inr (first_difference_less (map snd xs) (map snd ys)))"
proof (induction xs arbitrary: p q ys)
  case Nil
  then show ?case by (simp add: std_lexicographical_compare.simps)
next
  case (Cons x xs)
  from Cons.prems(1) obtain n1 where p: "p = Some (Cell (fst x))" and n1: "cell m (fst x) = Some n1"
    "value n1 = snd x" and r1: "chain (cell m) (next_node n1) xs"
    by (auto split: option.splits)
  from Cons.prems(3) obtain y ys' where ys: "ys = y # ys'" and len: "length xs = length ys'"
    by (cases ys) auto
  with Cons.prems(2) obtain n2 where q: "q = Some (Cell (fst y))" and n2: "cell m (fst y) = Some n2"
    "value n2 = snd y" and r2: "chain (cell m) (next_node n2) ys'"
    by (auto split: option.splits)
  from Cons.IH [OF r1 r2 len] show ?case
    by (subst std_lexicographical_compare.simps) (auto simp: p q deref_def n1 n2 ys)
qed

lemma mem_compare_built:
  "construct_all [[1, 2, 3], [1, 2, 3], [1, 2], [], [], [5], [1, 3]]
     (start [True, True, True, True, True, True, True, True, True, True, True])
   = Inr mem_compare"
  by (simp add: eval_defs example_defs mem_compare_def)

lemma construct_all_reachable:
  "reachable m \<Longrightarrow> construct_all vss m = Inr m' \<Longrightarrow> reachable m'"
proof (induction vss arbitrary: m)
  case Nil
  then show ?case by simp
next
  case (Cons vs vss)
  then show ?case
    by (auto split: sum.splits intro: init_constructed)
qed

lemma mem_compare_reachable: "reachable mem_compare"
  by (rule construct_all_reachable [OF at_start mem_compare_built])

lemma mem_compare_cells:
  "cells mem_compare 0 [(0, 1), (1, 2), (2, 3)]"
  "cells mem_compare 1 [(3, 1), (4, 2), (5, 3)]"
  "cells mem_compare 2 [(6, 1), (7, 2)]"
  "cells mem_compare 3 []"
  "cells mem_compare 4 []"
  "cells mem_compare 5 [(8, 5)]"
  "cells mem_compare 6 [(9, 1), (10, 3)]"
  by (simp_all add: cells_def obj_def cell_def mem_compare_def example_defs)

section \<open>Mutations of one container, and calls that cannot throw\<close>






lemma delete_Node_no_throw: "delete_Node p m \<noteq> Inl (bad_alloc m')"
  by (simp add: delete_Node_def split: ptr.splits)

lemma Clear_loop_no_throw: "Clear_loop this m \<noteq> Inl (bad_alloc m')"
proof (induction this m rule: Clear_loop.induct)
  case (1 this m)
  show ?case
  proof
    assume thrown: "Clear_loop this m = Inl (bad_alloc m')"
    then obtain L tmp t where L: "obj m this = Some L" and tmp: "next_node (head' L) = Some tmp"
      and t: "load m tmp = Some t"
      by (subst (asm) Clear_loop.simps) (auto split: option.splits)
    show False
    proof (cases "delete_Node tmp (set_next (Head this) (next_node t) m)")
      case (Inl e)
      with thrown L tmp t delete_Node_no_throw show False
        by (subst (asm) Clear_loop.simps) auto
    next
      case (Inr m2)
      with thrown L tmp t have "Clear_loop this m2 = Inl (bad_alloc m')"
        by (subst (asm) Clear_loop.simps) auto
      with "1.IH" [OF L tmp t Inr] show False by simp
    qed
  qed
qed

lemma destroy_no_throw: "destroy this m \<noteq> Inl (bad_alloc m')"
  using Clear_loop_no_throw [of this m m']
  by (auto simp: destroy_def Clear_def split: sum.splits)

lemma swap_no_throw: "swap this other m \<noteq> Inl (bad_alloc m')"
  by (simp add: swap_def split: option.splits)

lemma copy_thrown_frame:
  assumes "SingleLinkedList_copy d other m = Inl (bad_alloc m')"
  shows "obj m' = obj m" and "\<And>a. cell m a \<noteq> None \<Longrightarrow> cell m' a = cell m a"
proof -
  from assms obtain n where g: "GetSize other m = Inr n"
    by (cases "GetSize other m")
       (auto simp: SingleLinkedList_copy_def GetSize_def split: option.splits)
  obtain this m1 where no: "new_object d n m = (this, m1)" by (cases "new_object d n m")
  note f = new_object_facts [OF no]
  from assms g no obtain first e where as: "Assign this first list_end None m1 = Inl e"
    and e: "unwind this e = bad_alloc m'"
    by (auto simp: SingleLinkedList_copy_def list_begin_def split: sum.splits option.splits)
  from e obtain m0 where e0: "e = bad_alloc m0"
    and m': "m' = m0\<lparr>lists := (lists m0)[this := None]\<rparr>"
    by (cases e) (auto simp: unwind_def)
  have "kept (length (heap m)) this m1 m0"
    by (rule Assign_kept [OF as [unfolded e0]]) (simp_all add: f)
  then have k: "\<And>c. c \<noteq> this \<Longrightarrow> obj m0 c = obj m c"
    "\<And>a. a < length (heap m) \<Longrightarrow> cell m0 a = cell m a"
    using f by (simp_all add: kept_def)
  from k(1) f show "obj m' = obj m" by (auto simp: m' fun_eq_iff)
  fix a assume "cell m a \<noteq> None"
  then have "a < length (heap m)" by (auto dest: cell_Some_bound)
  with k(2) show "cell m' a = cell m a" by (simp add: m')
qed

section \<open>Clear, the destructor, swap and assignment; every reachable memory satisfies the invariant\<close>

lemma Clear_loop_spec:
  assumes "obj m c = Some L" and "chain (cell m) (next_node (head' L)) cs"
  shows "\<exists>m'. Clear_loop c m = Inr m' \<and>
              obj m' = (obj m)(c := Some (L\<lparr>head' := (head' L)\<lparr>next_node := None\<rparr>\<rparr>)) \<and>
              cell m' = (\<lambda>a. if a \<in> addrs cs then None else cell m a)"
  using assms
proof (induction cs arbitrary: m L)
  case Nil
  then have hd: "next_node (head' L) = None" by simp
  with Nil.prems(1) have "Clear_loop c m = Inr m"
    by (subst Clear_loop.simps) simp
  moreover from hd have "L\<lparr>head' := (head' L)\<lparr>next_node := None\<rparr>\<rparr> = L" by simp
  with Nil.prems(1) have "obj m = (obj m)(c := Some (L\<lparr>head' := (head' L)\<lparr>next_node := None\<rparr>\<rparr>))"
    by (auto simp: fun_eq_iff)
  ultimately show ?case by simp
next
  case (Cons x cs)
  from Cons.prems(2) obtain n where hd: "next_node (head' L) = Some (Cell (fst x))"
    and n: "cell m (fst x) = Some n" and rest: "chain (cell m) (next_node n) cs"
    by (auto split: option.splits)
  from chain_distinct [OF Cons.prems(2)] have nx: "fst x \<notin> addrs cs" by (simp add: addrs_map_fst)
  define m1 where "m1 = set_next (Head c) (next_node n) m"
  define m2 where "m2 = m1\<lparr>heap := (heap m1)[fst x := None]\<rparr>"
  from n have del: "delete_Node (Cell (fst x)) m1 = Inr m2"
    by (simp add: delete_Node_def m1_def m2_def)
  define L2 where "L2 = L\<lparr>head' := (head' L)\<lparr>next_node := next_node n\<rparr>\<rparr>"
  have o2: "obj m2 c = Some L2" by (simp add: m2_def m1_def Cons.prems(1) L2_def)
  have c2: "cell m2 = (cell m)(fst x := None)"
    using delete_Node_Inr(1) [OF del] by (simp add: m1_def)
  from rest nx have "chain (cell m2) (next_node (head' L2)) cs"
    by (simp add: c2 L2_def chain_upd)
  from Cons.IH [OF o2 this] obtain m' where m': "Clear_loop c m2 = Inr m'"
    "obj m' = (obj m2)(c := Some (L2\<lparr>head' := (head' L2)\<lparr>next_node := None\<rparr>\<rparr>))"
    "cell m' = (\<lambda>a. if a \<in> addrs cs then None else cell m2 a)" by blast
  have "Clear_loop c m = Clear_loop c m2"
    using del by (subst Clear_loop.simps) (simp add: Cons.prems(1) hd n m1_def)
  with m'(1) have 1: "Clear_loop c m = Inr m'" by simp
  have 2: "obj m' = (obj m)(c := Some (L\<lparr>head' := (head' L)\<lparr>next_node := None\<rparr>\<rparr>))"
    by (auto simp: m'(2) m2_def m1_def L2_def fun_eq_iff)
  have 3: "cell m' = (\<lambda>a. if a \<in> addrs (x # cs) then None else cell m a)"
    by (auto simp: m'(3) c2 fun_eq_iff)
  from 1 2 3 show ?case by blast
qed

lemma Clear_inv:
  assumes inv: "inv_with A m" and call: "Clear c m = Inr (u, m')"
  shows "inv_with (A(c := [])) m'" and "obj m' c \<noteq> None"
    and "\<And>c'. c' \<noteq> c \<Longrightarrow> obj m' c' = obj m c'"
proof -
  from call obtain L where L: "obj m c = Some L"
    by (cases "obj m c") (auto simp: Clear_def Clear_loop.simps [of c m])
  from Clear_loop_spec [OF L inv_with_chain [OF inv L]] obtain m1 where
    m1: "Clear_loop c m = Inr m1"
    "obj m1 = (obj m)(c := Some (L\<lparr>head' := (head' L)\<lparr>next_node := None\<rparr>\<rparr>))"
    "cell m1 = (\<lambda>a. if a \<in> addrs (A c) then None else cell m a)" by blast
  with call have m': "m' = set_size c 0 m1" by (simp add: Clear_def)
  show "obj m' c \<noteq> None" by (simp add: m' m1)
  show "\<And>c'. c' \<noteq> c \<Longrightarrow> obj m' c' = obj m c'" by (simp add: m' m1)
  show "inv_with (A(c := [])) m'"
  proof (rule inv_with_update [OF inv])
    show "obj m' c = Some (L\<lparr>head' := (head' L)\<lparr>next_node := None\<rparr>, size' := 0\<rparr>)"
      by (simp add: m' m1)
  qed (simp_all add: m' m1)
qed

lemma inv_with_kill:
  assumes inv: "inv_with A m" and e: "A c = []"
  shows "inv_with A (m\<lparr>lists := (lists m)[c := None]\<rparr>)"
  using assms unfolding inv_with_def by (auto split: if_splits)

lemma destroy_inv:
  assumes inv: "inv_with A m" and call: "destroy c m = Inr (u, m')"
  shows "inv_with (A(c := [])) m'"
proof -
  from call obtain u1 m1 where cl: "Clear c m = Inr (u1, m1)"
    and m': "m' = m1\<lparr>lists := (lists m1)[c := None]\<rparr>"
    by (auto simp: destroy_def split: sum.splits)
  from inv_with_kill [OF Clear_inv(1) [OF inv cl]] show ?thesis by (simp add: m')
qed

lemma swap_inv:
  assumes inv: "inv_with A m" and call: "swap a b m = Inr (u, m')"
  shows "inv_with (A(a := A b, b := A a)) m'"
proof -
  from call obtain L R where L: "obj m a = Some L" and R: "obj m b = Some R"
    and m': "m' = set_size b (size' L) (set_size a (size' R)
               (set_next (Head b) (next_node (head' L))
                 (set_next (Head a) (next_node (head' R)) m)))"
    by (auto simp: swap_def split: option.splits)
  show ?thesis
  proof (cases "a = b")
    case True
    with L R have "L = R" by simp
    with True L have "obj m' = obj m" by (auto simp: m' fun_eq_iff)
    moreover have "cell m' = cell m" by (simp add: m')
    moreover from True have "A(a := A b, b := A a) = A" by (simp add: fun_eq_iff)
    ultimately show ?thesis using inv by (simp add: inv_with_same)
  next
    case False
    have oa: "obj m' a = Some (L\<lparr>head' := (head' L)\<lparr>next_node := next_node (head' R)\<rparr>,
                                size' := size' R\<rparr>)"
      and ob: "obj m' b = Some (R\<lparr>head' := (head' R)\<lparr>next_node := next_node (head' L)\<rparr>,
                                size' := size' L\<rparr>)"
      and oo: "\<And>c. c \<noteq> a \<Longrightarrow> c \<noteq> b \<Longrightarrow> obj m' c = obj m c"
      and cc: "cell m' = cell m"
      using False by (simp_all add: m' L R)
    show ?thesis
      unfolding inv_with_def
    proof (intro conjI allI impI)
      fix c K assume K: "obj m' c = Some K"
      consider "c = a" | "c = b" | "c \<noteq> a" "c \<noteq> b" by blast
      then show "chain (cell m') (next_node (head' K)) ((A(a := A b, b := A a)) c)"
      proof cases
        case 1
        with K oa False inv_with_chain [OF inv R] show ?thesis by (auto simp: cc)
      next
        case 2
        with K ob False inv_with_chain [OF inv L] show ?thesis by (auto simp: cc)
      next
        case 3
        with K oo inv_with_chain [OF inv, of c K] show ?thesis by (simp add: cc)
      qed
      consider "c = a" | "c = b" | "c \<noteq> a" "c \<noteq> b" by blast
      then show "size' K = length ((A(a := A b, b := A a)) c)"
      proof cases
        case 1
        with K oa False inv_with_size [OF inv R] show ?thesis by auto
      next
        case 2
        with K ob False inv_with_size [OF inv L] show ?thesis by auto
      next
        case 3
        with K oo inv_with_size [OF inv, of c K] show ?thesis by simp
      qed
    next
      fix c assume "obj m' c = None"
      with oa ob have ne: "c \<noteq> a" "c \<noteq> b" by auto
      with oo [of c] \<open>obj m' c = None\<close> have "obj m c = None" by simp
      with inv ne show "(A(a := A b, b := A a)) c = []" by (simp add: inv_with_dead)
    next
      fix c c' x assume "c \<noteq> c'" "x \<in> addrs ((A(a := A b, b := A a)) c)"
      with False inv_with_disjoint [OF inv] show "x \<notin> addrs ((A(a := A b, b := A a)) c')"
        by (auto split: if_splits)
    qed
  qed
qed

lemma operator_assign_inv:
  assumes inv: "inv_with A m"
  shows "operator_assign d this rhs m = Inr (u, m') \<Longrightarrow> \<exists>A'. inv_with A' m'"
    and "operator_assign d this rhs m = Inl (bad_alloc m') \<Longrightarrow> \<exists>A'. inv_with A' m'"
proof -
  assume call: "operator_assign d this rhs m = Inr (u, m')"
  show "\<exists>A'. inv_with A' m'"
  proof (cases "this = rhs")
    case True
    with call inv show ?thesis by (auto simp: operator_assign_def)
  next
    case False
    with call obtain temp m1 u2 m2 where cp: "SingleLinkedList_copy d rhs m = Inr (temp, m1)"
      and sw: "swap this temp m1 = Inr (u2, m2)" and de: "destroy temp m2 = Inr (u, m')"
      by (auto simp: operator_assign_def split: sum.splits)
    from copy_inv [OF inv copy_live(1) [OF cp], where d = d] cp obtain A1 where "inv_with A1 m1"
      by auto
    from destroy_inv [OF swap_inv [OF this sw] de] show ?thesis by blast
  qed
next
  assume call: "operator_assign d this rhs m = Inl (bad_alloc m')"
  have "SingleLinkedList_copy d rhs m = Inl (bad_alloc m')"
  proof (cases "SingleLinkedList_copy d rhs m")
    case (Inl e)
    with call show ?thesis by (auto simp: operator_assign_def split: if_splits)
  next
    case (Inr r)
    obtain temp m1 where r: "r = (temp, m1)" by (cases r)
    from call Inr r swap_no_throw [of this temp m1 m'] destroy_no_throw [of temp _ m']
    show ?thesis
      by (auto simp: operator_assign_def split: if_splits sum.splits)
  qed
  from copy_inv [OF inv copy_live(2) [OF this], where d = d] this show "\<exists>A'. inv_with A' m'"
    by auto
qed

lemma reachable_inv: "reachable m \<Longrightarrow> \<exists>A. inv_with A m"
proof (induction rule: reachable.induct)
  case (at_start oks)
  show ?case by (blast intro: start_inv)
next
  case (default_constructed m d this m')
  then show ?case by (blast dest: default_inv)
next
  case (init_constructed m d vs this m')
  then obtain A where "inv_with A m" by blast
  from init_inv [OF this, where d = d and vs = vs] init_constructed.hyps(2) show ?case by auto
next
  case (init_thrown m d vs m')
  then obtain A where "inv_with A m" by blast
  from init_inv [OF this, where d = d and vs = vs] init_thrown.hyps(2) show ?case by auto
next
  case (copy_constructed m d other this m')
  then obtain A where A: "inv_with A m" by blast
  from copy_constructed.hyps(2) have "obj m other \<noteq> None" by (rule copy_live)
  from copy_inv [OF A this, where d = d] copy_constructed.hyps(2) show ?case by auto
next
  case (copy_thrown m d other m')
  then obtain A where A: "inv_with A m" by blast
  from copy_thrown.hyps(2) have "obj m other \<noteq> None" by (rule copy_live)
  from copy_inv [OF A this, where d = d] copy_thrown.hyps(2) show ?case by auto
next
  case (pushed m this v u m')
  then show ?case by (blast dest: PushFront_inv)
next
  case (push_thrown m this v m')
  then show ?case by (blast dest: PushFront_thrown)
next
  case (popped m this u m')
  then show ?case by (blast dest: PopFront_inv)
next
  case (inserted_after m this cs pos v it m')
  then obtain A where A: "inv_with A m" by blast
  with inserted_after.hyps have "valid_pos this (A this) pos" by (auto dest: inv_with_cells)
  from InsertAfter_inv(1) [OF A this inserted_after.hyps(4)] show ?case by blast
next
  case (insert_thrown m this cs pos v m')
  then show ?case by (blast dest: InsertAfter_thrown)
next
  case (erased_after m this cs pos it m')
  then obtain A where A: "inv_with A m" by blast
  with erased_after.hyps have "valid_pos this (A this) pos" by (auto dest: inv_with_cells)
  from EraseAfter_inv(1) [OF A this erased_after.hyps(4)] show ?case by blast
next
  case (cursor_copied m it it' m')
  then show ?case by (blast dest: BasicIterator_copy_inv)
next
  case (swapped m this other u m')
  then show ?case by (blast dest: swap_inv)
next
  case (cleared m this u m')
  then show ?case by (blast dest: Clear_inv(1))
next
  case (destroyed m this u m')
  then show ?case by (blast dest: destroy_inv)
next
  case (assigned m d this rhs u m')
  then show ?case by (blast dest: operator_assign_inv(1))
next
  case (assign_thrown m d this rhs m')
  then show ?case by (blast dest: operator_assign_inv(2))
qed

section \<open>Advancing a cursor\<close>

text \<open>
  At the end position every increment is a no-op. At a live cell or sentinel \<open>p\<close> the
  pre-increment and the post-increment of \<open>ConstIterator\<close> move the cursor to the successor
  of \<open>p\<close>. The post-increment of \<open>Iterator\<close> moves it there when the allocation of its
  copy succeeds, and ends the program when that allocation fails.
\<close>

lemma increment_steps:
  "pre_increment list_end m = Inr list_end \<and>
   post_increment list_end m = Inr ((list_end, list_end), m) \<and>
   post_increment_const list_end m = Inr ((list_end, list_end), m) \<and>
   (load m p = Some n \<longrightarrow>
      pre_increment (Some p) m = Inr (next_node n) \<and>
      post_increment_const (Some p) m = Inr ((Some p, next_node n), m) \<and>
      (\<forall>rest. new_ok m = True # rest \<longrightarrow>
         (\<exists>m1. post_increment (Some p) m = Inr ((Some p, next_node n), m1) \<and>
               obj m1 = obj m \<and> (\<forall>a. cell m a \<noteq> None \<longrightarrow> cell m1 a = cell m a))) \<and>
      ((\<exists>m1. post_increment (Some p) m = Inr ((Some p, next_node n), m1)) \<or>
       post_increment (Some p) m = Inl terminate))"
proof (intro conjI impI allI)
  show "pre_increment list_end m = Inr list_end"
    by (simp add: pre_increment_def list_end_def)
  show "post_increment list_end m = Inr ((list_end, list_end), m)"
    by (simp add: post_increment_def BasicIterator_copy_unfold pre_increment_def list_end_def)
  show "post_increment_const list_end m = Inr ((list_end, list_end), m)"
    by (simp add: post_increment_const_def pre_increment_def list_end_def)
next
  assume n: "load m p = Some n"
  then show "pre_increment (Some p) m = Inr (next_node n)"
    by (simp add: pre_increment_def)
  from n show "post_increment_const (Some p) m = Inr ((Some p, next_node n), m)"
    by (simp add: post_increment_const_def pre_increment_def)
  have returns: "\<exists>m1. post_increment (Some p) m = Inr ((Some p, next_node n), m1) \<and>
               obj m1 = obj m \<and> (\<forall>a. cell m a \<noteq> None \<longrightarrow> cell m1 a = cell m a)"
    if ok: "new_ok m = True # rest" for rest
  proof -
    define m1 where "m1 = m\<lparr>heap := heap m @ [Some \<lparr>value = value n, next_node = next_node n\<rparr>],
                           new_ok := rest\<rparr>"
    have new: "new_Node (value n) (next_node n) m = Inr (Cell (length (heap m)), m1)"
      by (simp add: new_Node_unfold ok m1_def)
    note nn = new_Node_Inr [OF new]
    have ld: "load m1 p = Some n"
      using n by (cases p) (auto simp: nn cell_def)
    have "post_increment (Some p) m = Inr ((Some p, next_node n), m1)"
      using n by (simp add: post_increment_def BasicIterator_copy_unfold deref_def new
            pre_increment_def ld)
    moreover have "obj m1 = obj m" by (rule nn)
    moreover have "\<forall>a. cell m a \<noteq> None \<longrightarrow> cell m1 a = cell m a"
      by (auto simp: nn cell_def)
    ultimately show ?thesis by blast
  qed
  then show "\<exists>m1. post_increment (Some p) m = Inr ((Some p, next_node n), m1) \<and>
               obj m1 = obj m \<and> (\<forall>a. cell m a \<noteq> None \<longrightarrow> cell m1 a = cell m a)"
    if "new_ok m = True # rest" for rest using that .
  show "(\<exists>m1. post_increment (Some p) m = Inr ((Some p, next_node n), m1)) \<or>
        post_increment (Some p) m = Inl terminate"
  proof (cases "\<exists>rest. new_ok m = True # rest")
    case True
    with returns show ?thesis by blast
  next
    case False
    then have "\<exists>e. new_Node (value n) (next_node n) m = Inl e"
      by (cases "new_ok m") (auto simp: new_Node_unfold)
    with n have "post_increment (Some p) m = Inl terminate"
      by (auto simp: post_increment_def BasicIterator_copy_unfold deref_def)
    then show ?thesis ..
  qed
qed

section \<open>The claims\<close>

text \<open>
  C1. Size invariant. In every reachable memory and for every live container, \<open>GetSize()\<close>
  is the number of cells found by following links from the cell after the sentinel to
  the end position: the counting traversal returns, and returns \<open>GetSize()\<close>; and the
  chain of the container has that many cells.
\<close>

theorem size_invariant:
  assumes "reachable m" and "GetSize this m = Inr n"
  shows "(\<exists>first. list_begin this m = Inr first \<and>
            std_distance m first list_end 0 = Some (Inr n)) \<and>
         (\<exists>cs. cells m this cs \<and> length cs = n)"
proof -
  from assms(1) obtain A where A: "inv_with A m" by (blast dest: reachable_inv)
  from assms(2) obtain L where L: "obj m this = Some L" and n: "n = size' L"
    by (auto simp: GetSize_def split: option.splits)
  note ch = inv_with_chain [OF A L] and sz = inv_with_size [OF A L]
  from std_distance_chain [OF ch, of 0] sz n L ch show ?thesis
    by (auto simp: list_begin_def list_end_def cells_def)
qed

theorem size_invariant_witness:
  "reachable mem_9 \<and> GetSize 0 mem_9 = Inr 1 \<and> list_begin 0 mem_9 = Inr (Some (Cell 1)) \<and>
   std_distance mem_9 (Some (Cell 1)) list_end 0 = Some (Inr 1) \<and> cells mem_9 0 [(1, 9)]"
proof -
  have g: "GetSize 0 mem_9 = Inr 1" by (simp add: GetSize_def obj_def example_defs)
  have b: "list_begin 0 mem_9 = Inr (Some (Cell 1))"
    by (simp add: list_begin_def obj_def example_defs)
  from size_invariant [OF example_reachable(6) g] b
  have "std_distance mem_9 (Some (Cell 1)) list_end 0 = Some (Inr 1)" by auto
  with example_reachable(6) g b example_cells(6) show ?thesis by blast
qed

text \<open>
  C2. Ordering, length first. For two containers of a reachable memory over a linearly
  ordered element type, \<open>operator<\<close> returns, and returns true exactly when the left
  sequence is shorter, or as long as the right one and smaller at the first position
  where they differ. The witness evaluates \<open>{1,2} < {1,2,3}\<close>, \<open>{5} < {1,2}\<close> and
  \<open>{1,2} < {1,3}\<close>, all true, and three comparisons that are false.
\<close>

theorem ordering_length_first:
  fixes m :: "('a::linorder) memory"
  assumes "reachable m" and "cells m a xs" and "cells m b ys"
  shows "operator_less a b m = Some (Inr (spec_less (map snd xs) (map snd ys)))"
proof -
  from assms(1) obtain A where A: "inv_with A m" by (blast dest: reachable_inv)
  from assms(2,3) obtain L R where L: "obj m a = Some L" "chain (cell m) (next_node (head' L)) xs"
    and R: "obj m b = Some R" "chain (cell m) (next_node (head' R)) ys"
    by (auto simp: cells_def split: option.splits)
  from inv_with_cells [OF A assms(2)] inv_with_size [OF A L(1)] have sa: "size' L = length xs"
    by simp
  from inv_with_cells [OF A assms(3)] inv_with_size [OF A R(1)] have sb: "size' R = length ys"
    by simp
  show ?thesis
  proof (cases "length xs = length ys")
    case True
    from std_lexicographical_compare_chain [OF L(2) R(2) True] True show ?thesis
      by (simp add: operator_less_def GetSize_def L(1) R(1) sa sb list_begin_def list_end_def
            spec_less_def)
  next
    case False
    then show ?thesis
      by (auto simp: operator_less_def GetSize_def L(1) R(1) sa sb spec_less_def)
  qed
qed

theorem ordering_length_first_witness:
  "reachable mem_compare \<and>
   operator_less 2 0 mem_compare = Some (Inr True) \<and>
   operator_less 5 2 mem_compare = Some (Inr True) \<and>
   operator_less 2 6 mem_compare = Some (Inr True) \<and>
   operator_less 0 2 mem_compare = Some (Inr False) \<and>
   operator_less 6 2 mem_compare = Some (Inr False) \<and>
   operator_less 0 1 mem_compare = Some (Inr False)"
  using ordering_length_first [OF mem_compare_reachable mem_compare_cells(3) mem_compare_cells(1)]
    ordering_length_first [OF mem_compare_reachable mem_compare_cells(6) mem_compare_cells(3)]
    ordering_length_first [OF mem_compare_reachable mem_compare_cells(3) mem_compare_cells(7)]
    ordering_length_first [OF mem_compare_reachable mem_compare_cells(1) mem_compare_cells(3)]
    ordering_length_first [OF mem_compare_reachable mem_compare_cells(7) mem_compare_cells(3)]
    ordering_length_first [OF mem_compare_reachable mem_compare_cells(1) mem_compare_cells(2)]
    mem_compare_reachable
  by (simp add: spec_less_def)



text \<open>
  C4. \<open>InsertAfter(before_begin(), v)\<close> is \<open>PushFront(v)\<close>. With the cursor at the sentinel
  \<open>InsertAfter\<close> fails exactly when \<open>PushFront\<close> fails, and otherwise leaves the very same
  memory, hence the same element sequence and size, and returns the cursor to the new
  cell, which is the first cell and holds \<open>v\<close>. When the cursor is passed as the
  \<open>Iterator\<close> that \<open>before_begin()\<close> returns, its conversion allocates one more node: in a
  reachable memory, whenever that call returns, \<open>PushFront\<close> returns too, both
  containers hold the same element sequence and size, and the cursor returned is
  \<open>begin()\<close> and refers to a cell holding \<open>v\<close>.
\<close>

theorem insert_after_before_begin:
  "InsertAfter this (before_begin this) v m =
     (case PushFront this v m of
        Inl e \<Rightarrow> Inl e
      | Inr (u, m') \<Rightarrow> Inr (Some (Cell (length (heap m))), m')) \<and>
   (\<forall>u m'. PushFront this v m = Inr (u, m') \<longrightarrow>
      list_begin this m' = Inr (Some (Cell (length (heap m)))) \<and>
      (\<exists>n. load m' (Cell (length (heap m))) = Some n \<and> value n = v)) \<and>
   (reachable m \<longrightarrow>
      (\<forall>it m1. InsertAfter_from_Iterator this (before_begin this) v m = Inr (it, m1) \<longrightarrow>
         (\<exists>u m2 cs1 cs2.
            PushFront this v m = Inr (u, m2) \<and>
            cells m1 this cs1 \<and> cells m2 this cs2 \<and> map snd cs1 = map snd cs2 \<and>
            GetSize this m1 = GetSize this m2 \<and>
            list_begin this m1 = Inr it \<and>
            (\<exists>n. deref m1 it = Some n \<and> value n = v))))"
proof (intro conjI allI impI)
  show "InsertAfter this (before_begin this) v m =
     (case PushFront this v m of
        Inl e \<Rightarrow> Inl e
      | Inr (u, m') \<Rightarrow> Inr (Some (Cell (length (heap m))), m'))"
    unfolding before_begin_def by (rule InsertAfter_before_begin)
next
  fix u m' assume "PushFront this v m = Inr (u, m')"
  from PushFront_first(1,2) [OF this]
  show "list_begin this m' = Inr (Some (Cell (length (heap m))))"
    and "\<exists>n. load m' (Cell (length (heap m))) = Some n \<and> value n = v" .
next
  fix it m1
  assume r: "reachable m"
    and call: "InsertAfter_from_Iterator this (before_begin this) v m = Inr (it, m1)"
  from r obtain A where A: "inv_with A m" by (blast dest: reachable_inv)
  from call obtain pos m0 where cp: "BasicIterator_copy (Some (Head this)) m = Inr (pos, m0)"
    and ins: "InsertAfter this pos v m0 = Inr (it, m1)"
    by (auto simp: InsertAfter_from_Iterator_def before_begin_def split: sum.splits)
  note f = BasicIterator_copy_facts [OF cp]
  from BasicIterator_copy_inv(1) [OF A cp] have A0: "inv_with A m0" .
  from ins f(1) obtain u0 where p0: "PushFront this v m0 = Inr (u0, m1)"
    and it: "it = Some (Cell (length (heap m0)))"
    by (auto simp: InsertAfter_before_begin split: sum.splits)
  note first = PushFront_first [OF p0]
  from first(3) f(2) have live: "obj m this \<noteq> None" by simp
  from f(3) obtain rest where "new_ok m = True # rest" by blast
  from PushFront_returns [OF live this] obtain m2 where p: "PushFront this v m = Inr ((), m2)"
    by blast
  note A1 = PushFront_inv [OF A0 p0] and A2 = PushFront_inv [OF A p]
  from first(1) have l1: "obj m1 this \<noteq> None"
    by (auto simp: list_begin_def split: option.splits)
  from PushFront_first(1) [OF p] have l2: "obj m2 this \<noteq> None"
    by (auto simp: list_begin_def split: option.splits)
  from inv_with_cellsI [OF A1 l1] have c1: "cells m1 this ((length (heap m0), v) # A this)" by simp
  from inv_with_cellsI [OF A2 l2] have c2: "cells m2 this ((length (heap m), v) # A this)" by simp
  from l1 l2 A1 A2 have g: "GetSize this m1 = GetSize this m2"
    by (auto simp: GetSize_def dest!: inv_with_size)
  from first(2) it have "\<exists>n. deref m1 it = Some n \<and> value n = v" by (simp add: deref_def)
  with p c1 c2 g first(1) it
  show "\<exists>u m2 cs1 cs2.
            PushFront this v m = Inr (u, m2) \<and>
            cells m1 this cs1 \<and> cells m2 this cs2 \<and> map snd cs1 = map snd cs2 \<and>
            GetSize this m1 = GetSize this m2 \<and>
            list_begin this m1 = Inr it \<and>
            (\<exists>n. deref m1 it = Some n \<and> value n = v)"
    by (intro exI [of _ "()"] exI [of _ m2] exI [of _ "(length (heap m0), v) # A this"]
          exI [of _ "(length (heap m), v) # A this"]) simp
qed

theorem insert_after_before_begin_witness:
  "reachable mem_empty \<and>
   PushFront 0 5 mem_empty = Inr ((), mem_5) \<and>
   InsertAfter 0 (before_begin 0) 5 mem_empty = Inr (Some (Cell 0), mem_5) \<and>
   list_begin 0 mem_5 = Inr (Some (Cell 0)) \<and>
   load mem_5 (Cell 0) = Some \<lparr>value = 5, next_node = None\<rparr> \<and>
   InsertAfter_from_Iterator 0 (before_begin 0) 5 mem_empty = Inr (Some (Cell 1), mem_5_converted) \<and>
   cells mem_5_converted 0 [(1, 5)] \<and> cells mem_5 0 [(0, 5)] \<and>
   GetSize 0 mem_5_converted = GetSize 0 mem_5 \<and>
   list_begin 0 mem_5_converted = Inr (Some (Cell 1))"
proof -
  have p: "PushFront 0 5 mem_empty = Inr ((), mem_5)"
    by (simp add: eval_defs example_defs)
  have c: "InsertAfter_from_Iterator 0 (before_begin 0) 5 mem_empty
             = Inr (Some (Cell 1), mem_5_converted)"
    by (simp add: InsertAfter_from_Iterator_def eval_defs example_defs)
  have e: "length (heap mem_empty) = 0" by (simp add: example_defs)
  have cs: "cells mem_5_converted 0 [(1, 5)]" "cells mem_5 0 [(0, 5)]"
    "load mem_5 (Cell 0) = Some \<lparr>value = 5, next_node = None\<rparr>"
    by (simp_all add: cells_def obj_def cell_def example_defs)
  from insert_after_before_begin [of 0 5 mem_empty] p c e example_reachable(1) cs
  show ?thesis by auto
qed

text \<open>
  C5. \<open>PushFront\<close> and \<open>PopFront\<close> are inverse: whenever \<open>PushFront(v)\<close> returns, the
  \<open>PopFront()\<close> that follows returns too, and afterwards \<open>GetSize()\<close>, \<open>begin()\<close> and the
  chain of cells of the container, so its element sequence, are what they were before.
\<close>

theorem push_pop_inverse:
  assumes "PushFront this v m = Inr (u, m1)"
  shows "\<exists>m2. PopFront this m1 = Inr ((), m2) \<and>
              GetSize this m2 = GetSize this m \<and>
              list_begin this m2 = list_begin this m \<and>
              (\<forall>cs. cells m2 this cs = cells m this cs)"
proof -
  from assms obtain L p m0 where L: "obj m this = Some L"
    and new: "new_Node v (next_node (head' L)) m = Inr (p, m0)"
    and m1: "m1 = set_size this (size' L + 1) (set_next (Head this) (Some p) m0)"
    by (auto simp: PushFront_unfold split: option.splits sum.splits)
  note nn = new_Node_Inr [OF new]
  let ?a = "length (heap m)"
  define L1 where "L1 = L\<lparr>head' := (head' L)\<lparr>next_node := Some (Cell ?a)\<rparr>, size' := size' L + 1\<rparr>"
  define md where "md = set_next (Head this) (next_node (head' L)) m1"
  define m2 where "m2 = set_size this (size' L1 - 1) (md\<lparr>heap := (heap md)[?a := None]\<rparr>)"
  have o1: "obj m1 this = Some L1" by (simp add: m1 nn L L1_def)
  have c1: "cell m1 ?a = Some \<lparr>value = v, next_node = next_node (head' L)\<rparr>"
    by (simp add: m1 nn)
  have "cell md ?a \<noteq> None" by (simp add: md_def c1)
  then have del: "delete_Node (Cell ?a) md = Inr (md\<lparr>heap := (heap md)[?a := None]\<rparr>)"
    by (simp add: delete_Node_def)
  define N where "N = \<lparr>value = v, next_node = next_node (head' L)\<rparr>"
  have sz: "size' L1 \<noteq> 0" and nx: "next_node (head' L1) = Some (Cell ?a)"
    by (simp_all add: L1_def)
  have ld: "load m1 (Cell ?a) = Some N"
    using c1 by (simp add: N_def)
  have del': "delete_Node (Cell ?a) (set_next (Head this) (next_node N) m1)
                = Inr (md\<lparr>heap := (heap md)[?a := None]\<rparr>)"
    using del by (simp add: md_def N_def)
  have pop: "PopFront this m1 = Inr ((), m2)"
    unfolding m2_def by (rule PopFrontI [OF o1 sz nx ld del'])
  have o: "obj m2 this = obj m this"
    using delete_Node_Inr(2) [OF del] by (simp add: m2_def md_def o1 L) (simp add: L1_def)
  have "cell m ?a = None" by (simp add: cell_def)
  then have c: "cell m2 = cell m"
    using delete_Node_Inr(1) [OF del] by (auto simp: m2_def md_def m1 nn fun_eq_iff)
  from cells_cong [OF o c] have "\<forall>cs. cells m2 this cs = cells m this cs" by blast
  with pop o show ?thesis by (auto simp: GetSize_def list_begin_def)
qed

theorem push_pop_inverse_witness:
  "PushFront 0 5 mem_7_9 = Inr ((), mem_5_7_9) \<and>
   PopFront 0 mem_5_7_9 = Inr ((), mem_7_9_after) \<and>
   GetSize 0 mem_7_9_after = GetSize 0 mem_7_9 \<and>
   list_begin 0 mem_7_9_after = list_begin 0 mem_7_9 \<and>
   cells mem_7_9 0 [(0, 7), (1, 9)] \<and> cells mem_7_9_after 0 [(0, 7), (1, 9)]"
proof -
  have pop: "PopFront 0 mem_5_7_9 = Inr ((), mem_7_9_after)"
    by (simp add: eval_defs example_defs)
  from push_pop_inverse [OF example_steps(4)] pop example_steps(4) example_cells(3)
  show ?thesis by auto
qed

text \<open>
  C6, as amended. In a reachable memory let the container have the cells \<open>pre\<close> followed
  by a last cell \<open>b\<close>. \<open>EraseAfter(pos)\<close> with \<open>pos\<close> at the cell before the last one
  (\<open>before_begin()\<close> when the last cell is the only one) returns \<open>end()\<close> and leaves the
  cells \<open>pre\<close> and the size \<open>length pre\<close>. With \<open>pos\<close> at the last cell itself the call
  reads \<open>tmp->next_node\<close> through the null pointer \<open>tmp\<close>: undefined behaviour. The
  counterexample is the list \<open>{1}\<close> and the cursor \<open>begin()\<close>.
\<close>

theorem erase_after_before_last:
  assumes r: "reachable m" and cs: "cells m this (pre @ [(b, y)])"
    and pos: "pos = (if pre = [] then before_begin this else Some (Cell (fst (last pre))))"
  shows "(\<exists>m'. EraseAfter this pos m = Inr (list_end, m') \<and> cells m' this pre \<and>
               GetSize this m' = Inr (length pre)) \<and>
         EraseAfter this (Some (Cell b)) m = Inl undefined_behaviour"
proof -
  from r obtain A where A: "inv_with A m" by (blast dest: reachable_inv)
  from cs obtain L where L: "obj m this = Some L"
    and ch: "chain (cell m) (next_node (head' L)) (pre @ [(b, y)])"
    by (auto simp: cells_def split: option.splits)
  from inv_with_cells [OF A cs] have Ac: "A this = pre @ [(b, y)]" by simp
  from inv_with_size [OF A L] Ac have sz: "size' L = Suc (length pre)" by simp
  from chain_last_next [OF ch] obtain nb where nb: "cell m b = Some nb" "next_node nb = None"
    by auto
  have ub: "EraseAfter this (Some (Cell b)) m = Inl undefined_behaviour"
    by (simp add: EraseAfter_def IsEmpty_def L sz erase_next_def nb)
  have vp: "valid_pos this (A this) pos"
    by (cases pre rule: rev_cases) (auto simp: valid_pos_def pos Ac before_begin_def)
  have er: "erased pos (A this) = pre"
  proof (cases pre rule: rev_cases)
    case Nil
    then show ?thesis by (simp add: erased_def pos Ac before_begin_def)
  next
    case (snoc pre' c)
    obtain a x where c: "c = (a, x)" by (cases c)
    from chain_distinct [OF ch] snoc c have "a \<notin> addrs pre'" by (auto simp: addrs_map_fst)
    with era_split [OF this, of x "[(b, y)]"] show ?thesis
      by (simp add: erased_def pos Ac snoc c)
  qed
  have "\<exists>it m'. EraseAfter this pos m = Inr (it, m')"
  proof (cases pre rule: rev_cases)
    case Nil
    with ch nb have hd: "next_node (head' L) = Some (Cell b)" by simp
    from erase_next_Head [OF L hd nb(1)] show ?thesis
      by (simp add: EraseAfter_def IsEmpty_def L sz pos Nil before_begin_def deref_def)
  next
    case (snoc pre' c)
    obtain a x where c: "c = (a, x)" by (cases c)
    from ch snoc c have ch': "chain (cell m) (next_node (head' L)) (pre' @ (a, x) # [(b, y)])"
      by simp
    from chain_append [OF ch'] obtain na where na: "cell m a = Some na"
      "next_node na = Some (Cell b)" by auto
    from chain_distinct [OF ch'] have ab: "a \<noteq> b" by auto
    from erase_next_Cell [OF L na nb(1) ab] na ab show ?thesis
      by (simp add: EraseAfter_def IsEmpty_def L sz pos snoc c deref_def)
  qed
  then obtain it m' where call: "EraseAfter this pos m = Inr (it, m')" by blast
  note A' = EraseAfter_inv(1) [OF A vp call, unfolded er]
  from EraseAfter_inv(2) [OF A vp call] obtain n where n: "deref m' pos = Some n" "it = next_node n"
    by blast
  from n(1) have live: "obj m' this \<noteq> None"
  proof (cases pre rule: rev_cases)
    case Nil
    with n(1) show ?thesis by (auto simp: pos before_begin_def deref_def)
  next
    case (snoc pre' c)
    then have "pre \<noteq> []" by simp
    with A' show ?thesis by (auto dest: inv_with_dead)
  qed
  then obtain L' where L': "obj m' this = Some L'" by auto
  from inv_with_chain [OF A' L'] have ch2: "chain (cell m') (next_node (head' L')) pre" by simp
  from inv_with_size [OF A' L'] have sz2: "size' L' = length pre" by simp
  have "it = None"
  proof (cases pre rule: rev_cases)
    case Nil
    with ch2 n L' show ?thesis by (simp add: pos before_begin_def deref_def)
  next
    case (snoc pre' c)
    from chain_last_next [OF ch2 [unfolded snoc]] n snoc show ?thesis
      by (auto simp: pos deref_def)
  qed
  with call ch2 sz2 L' ub show ?thesis
    by (auto simp: list_end_def cells_def GetSize_def)
qed

theorem erase_after_before_last_witness:
  "reachable mem_7_9 \<and> cells mem_7_9 0 ([(0, 7)] @ [(1, 9)]) \<and>
   EraseAfter 0 (Some (Cell 0)) mem_7_9 = Inr (list_end, mem_7_erased) \<and>
   cells mem_7_erased 0 [(0, 7)] \<and> GetSize 0 mem_7_erased = Inr 1 \<and>
   EraseAfter 0 (Some (Cell 1)) mem_7_9 = Inl undefined_behaviour"
proof -
  have c: "cells mem_7_9 0 ([(0, 7)] @ [(1, 9)])" using example_cells(3) by simp
  have e: "EraseAfter 0 (Some (Cell 0)) mem_7_9 = Inr (list_end, mem_7_erased)"
    by (simp add: eval_defs example_defs)
  from erase_after_before_last [OF example_reachable(3) c, of "Some (Cell 0)"] e
    example_reachable(3) c
  show ?thesis by auto
qed

theorem erase_after_last_counterexample:
  "SingleLinkedList_init 0 [1] (start [True]) = Inr (0, mem_1) \<and>
   cells mem_1 0 [(0, 1)] \<and> IsEmpty 0 mem_1 = Inr False \<and>
   list_begin 0 mem_1 = Inr (Some (Cell 0)) \<and>
   EraseAfter 0 (Some (Cell 0)) mem_1 = Inl undefined_behaviour"
  by (simp add: mem_1_built) (simp add: cells_def eval_defs example_defs)

text \<open>
  C7. Copy-assignment safety. Assigning a container to itself returns at once and
  leaves the memory as it is. When an assignment throws \<open>std::bad_alloc\<close> (only the copy
  of the source allocates), the destination has the size, the first cell and the
  chain of cells it had before: the only traces are the dead temporary and the nodes
  its constructor had allocated.
\<close>

theorem copy_assignment_safety:
  "operator_assign d this this m = Inr ((), m) \<and>
   (\<forall>m'. operator_assign d this rhs m = Inl (bad_alloc m') \<longrightarrow>
      GetSize this m' = GetSize this m \<and>
      list_begin this m' = list_begin this m \<and>
      (\<forall>cs. cells m this cs \<longrightarrow> cells m' this cs))"
proof (intro conjI allI impI)
  show "operator_assign d this this m = Inr ((), m)"
    by (simp add: operator_assign_def)
next
  fix m' assume thrown: "operator_assign d this rhs m = Inl (bad_alloc m')"
  have copy: "SingleLinkedList_copy d rhs m = Inl (bad_alloc m')"
  proof (cases "SingleLinkedList_copy d rhs m")
    case (Inl e)
    with thrown show ?thesis by (auto simp: operator_assign_def split: if_splits)
  next
    case (Inr r)
    obtain temp m1 where r: "r = (temp, m1)" by (cases r)
    from thrown Inr r swap_no_throw [of this temp m1 m'] destroy_no_throw [of temp _ m']
    show ?thesis
      by (auto simp: operator_assign_def split: if_splits sum.splits)
  qed
  note f = copy_thrown_frame [OF copy]
  from f(1) show "GetSize this m' = GetSize this m" by (simp add: GetSize_def)
  from f(1) show "list_begin this m' = list_begin this m" by (simp add: list_begin_def)
  fix cs assume c: "cells m this cs"
  then obtain L where L: "obj m this = Some L" "chain (cell m) (next_node (head' L)) cs"
    by (auto simp: cells_def split: option.splits)
  have "chain (cell m') (next_node (head' L)) cs = chain (cell m) (next_node (head' L)) cs"
    by (rule chain_frame) (auto intro!: f(2) dest: chain_live [OF L(2)])
  with L f(1) show "cells m' this cs" by (simp add: cells_def)
qed

theorem copy_assignment_safety_witness:
  "construct_all [[1, 2], [9]] (start [True, True, True, True, False]) = Inr mem_12_9 \<and>
   operator_assign 0 1 1 mem_12_9 = Inr ((), mem_12_9) \<and>
   operator_assign 0 1 0 mem_12_9 = Inl (bad_alloc mem_12_9_failed) \<and>
   GetSize 1 mem_12_9_failed = GetSize 1 mem_12_9 \<and>
   cells mem_12_9 1 [(2, 9)] \<and> cells mem_12_9_failed 1 [(2, 9)]"
proof -
  have b: "construct_all [[1, 2], [9]] (start [True, True, True, True, False]) = Inr mem_12_9"
    by (simp add: eval_defs example_defs mem_12_9_def)
  have t: "operator_assign 0 1 0 mem_12_9 = Inl (bad_alloc mem_12_9_failed)"
    by (simp add: operator_assign_def eval_defs example_defs Assign.simps mem_12_9_def
          mem_12_9_failed_def)
  have c: "cells mem_12_9 1 [(2, 9)]"
    by (simp add: cells_def obj_def cell_def example_defs mem_12_9_def)
  from copy_assignment_safety [of 0 1 mem_12_9 0] b t c show ?thesis by simp
qed

text \<open>
  C8. Container equality. For two live containers with chains \<open>xs\<close> and \<open>ys\<close>,
  \<open>operator==\<close> returns, and returns true exactly when the element sequences have the
  same length and equal values at every position. The witness evaluates
  \<open>{1,2,3} == {1,2,3}\<close> and \<open>{} == {}\<close>, true, and \<open>{1,2,3} == {1,2}\<close>, false.
\<close>

theorem container_equality:
  assumes "cells m a xs" and "cells m b ys"
  shows "operator_eq a b m = Some (Inr (spec_equal (map snd xs) (map snd ys)))"
proof -
  from assms obtain L R where L: "obj m a = Some L" "chain (cell m) (next_node (head' L)) xs"
    and R: "obj m b = Some R" "chain (cell m) (next_node (head' R)) ys"
    by (auto simp: cells_def split: option.splits)
  from std_equal_chain [OF L(2) R(2)] L(1) R(1) show ?thesis
    by (simp add: operator_eq_def list_begin_def list_end_def spec_equal_iff)
qed

theorem container_equality_witness:
  "construct_all [[1, 2, 3], [1, 2, 3], [1, 2], [], [], [5], [1, 3]]
     (start [True, True, True, True, True, True, True, True, True, True, True])
   = Inr mem_compare \<and>
   operator_eq 0 1 mem_compare = Some (Inr True) \<and>
   operator_eq 3 4 mem_compare = Some (Inr True) \<and>
   operator_eq 0 2 mem_compare = Some (Inr False)"
  using container_equality [OF mem_compare_cells(1) mem_compare_cells(2)]
    container_equality [OF mem_compare_cells(4) mem_compare_cells(5)]
    container_equality [OF mem_compare_cells(1) mem_compare_cells(3)]
    mem_compare_built
  by (simp add: spec_equal_def)

text \<open>
  C9. Advancing a cursor is total: at a real cell or at the sentinel every increment
  moves the cursor to the successor. The code breaks this for \<open>operator++(int)\<close> of
  \<open>Iterator\<close>, whose copy of the cursor allocates a node (lines 34-39, 66-70). On the
  container \<open>{10, 20}\<close> with no allocation left, at the first cell and at the sentinel,
  the post-increment of \<open>Iterator\<close> ends the program, where \<open>operator++()\<close> and the
  post-increment of \<open>ConstIterator\<close> move to the successor. With one allocation left it
  moves to the successor and leaves a third node behind that nothing references.
\<close>

theorem post_increment_terminates:
  "SingleLinkedList_init 0 [10, 20] (start [True, True]) = Inr (0, mem_10_20_full) \<and>
   reachable mem_10_20_full \<and>
   list_begin 0 mem_10_20_full = Inr (Some (Cell 0)) \<and>
   pre_increment (Some (Cell 0)) mem_10_20_full = Inr (Some (Cell 1)) \<and>
   post_increment_const (Some (Cell 0)) mem_10_20_full
     = Inr ((Some (Cell 0), Some (Cell 1)), mem_10_20_full) \<and>
   post_increment (Some (Cell 0)) mem_10_20_full = Inl terminate \<and>
   pre_increment (before_begin 0) mem_10_20_full = Inr (Some (Cell 0)) \<and>
   post_increment_const (before_begin 0) mem_10_20_full
     = Inr ((before_begin 0, Some (Cell 0)), mem_10_20_full) \<and>
   post_increment (before_begin 0) mem_10_20_full = Inl terminate \<and>
   post_increment (Some (Cell 0)) mem_10_20
     = Inr ((Some (Cell 0), Some (Cell 1)), mem_10_20_copied)"
proof -
  have built: "SingleLinkedList_init 0 [10, 20] (start [True, True]) = Inr (0, mem_10_20_full)"
    by (simp add: eval_defs example_defs)
  have "reachable mem_10_20_full"
    by (rule init_constructed [OF at_start built])
  moreover have "list_begin 0 mem_10_20_full = Inr (Some (Cell 0))"
    by (simp add: eval_defs example_defs)
  moreover have "pre_increment (Some (Cell 0)) mem_10_20_full = Inr (Some (Cell 1))"
    by (simp add: eval_defs example_defs)
  moreover have "post_increment_const (Some (Cell 0)) mem_10_20_full
      = Inr ((Some (Cell 0), Some (Cell 1)), mem_10_20_full)"
    by (simp add: eval_defs example_defs)
  moreover have "post_increment (Some (Cell 0)) mem_10_20_full = Inl terminate"
    by (simp add: eval_defs example_defs)
  moreover have "pre_increment (before_begin 0) mem_10_20_full = Inr (Some (Cell 0))"
    by (simp add: eval_defs example_defs)
  moreover have "post_increment_const (before_begin 0) mem_10_20_full
      = Inr ((before_begin 0, Some (Cell 0)), mem_10_20_full)"
    by (simp add: eval_defs example_defs)
  moreover have "post_increment (before_begin 0) mem_10_20_full = Inl terminate"
    by (simp add: eval_defs example_defs)
  moreover have "post_increment (Some (Cell 0)) mem_10_20
      = Inr ((Some (Cell 0), Some (Cell 1)), mem_10_20_copied)"
    by (simp add: eval_defs example_defs)
  ultimately show ?thesis using built by simp
qed

text \<open>
  C10. \<open>EraseAfter(before_begin())\<close> on an empty container of a reachable memory returns
  \<open>end()\<close> and leaves the memory as it is: size 0, no cells. When the cursor is passed as
  an \<open>Iterator\<close> and the allocation of its conversion succeeds, the call returns \<open>end()\<close>
  as well and the container is still empty.
\<close>

theorem erase_after_empty:
  assumes "reachable m" and "IsEmpty this m = Inr True"
  shows "EraseAfter this (before_begin this) m = Inr (list_end, m) \<and>
         GetSize this m = Inr 0 \<and> cells m this [] \<and>
         (\<forall>rest. new_ok m = True # rest \<longrightarrow>
            (\<exists>m1. EraseAfter_from_Iterator this (before_begin this) m = Inr (list_end, m1) \<and>
                  GetSize this m1 = Inr 0 \<and> cells m1 this []))"
proof -
  from assms(1) obtain A where A: "inv_with A m" by (blast dest: reachable_inv)
  from assms(2) obtain L where L: "obj m this = Some L" "size' L = 0"
    by (auto simp: IsEmpty_def split: option.splits)
  note e = inv_with_empty [OF A L]
  have call: "EraseAfter this (before_begin this) m = Inr (list_end, m)"
    by (simp add: EraseAfter_def IsEmpty_def L before_begin_def deref_def e list_end_def)
  have g: "GetSize this m = Inr 0" by (simp add: GetSize_def L)
  have c: "cells m this []" by (simp add: cells_def L e)
  have "\<exists>m1. EraseAfter_from_Iterator this (before_begin this) m = Inr (list_end, m1) \<and>
             GetSize this m1 = Inr 0 \<and> cells m1 this []"
    if ok: "new_ok m = True # rest" for rest
  proof -
    define m1 where "m1 = m\<lparr>heap := heap m @ [Some \<lparr>value = value (head' L),
                               next_node = next_node (head' L)\<rparr>], new_ok := rest\<rparr>"
    have new: "new_Node (value (head' L)) (next_node (head' L)) m = Inr (Cell (length (heap m)), m1)"
      by (simp add: new_Node_unfold ok m1_def)
    note nn = new_Node_Inr [OF new]
    have cp: "BasicIterator_copy (before_begin this) m = Inr (before_begin this, m1)"
      by (simp add: BasicIterator_copy_unfold before_begin_def deref_def L new)
    from nn L have L1: "obj m1 this = Some L" by simp
    have "EraseAfter this (before_begin this) m1 = Inr (list_end, m1)"
      by (simp add: EraseAfter_def IsEmpty_def L1 L before_begin_def deref_def e list_end_def)
    then have "EraseAfter_from_Iterator this (before_begin this) m = Inr (list_end, m1)"
      by (simp add: EraseAfter_from_Iterator_def cp)
    moreover have "GetSize this m1 = Inr 0" by (simp add: GetSize_def L1 L)
    moreover have "cells m1 this []" by (simp add: cells_def L1 e)
    ultimately show ?thesis by blast
  qed
  with call g c show ?thesis by blast
qed

theorem erase_after_empty_witness:
  "reachable mem_empty \<and> IsEmpty 0 mem_empty = Inr True \<and>
   EraseAfter 0 (before_begin 0) mem_empty = Inr (list_end, mem_empty) \<and>
   GetSize 0 mem_empty = Inr 0 \<and> cells mem_empty 0 [] \<and>
   EraseAfter_from_Iterator 0 (before_begin 0) mem_empty = Inr (list_end, mem_empty_converted) \<and>
   GetSize 0 mem_empty_converted = Inr 0 \<and> cells mem_empty_converted 0 []"
proof -
  have e: "IsEmpty 0 mem_empty = Inr True" by (simp add: eval_defs example_defs)
  have ok: "new_ok mem_empty = True # [True, True]" by (simp add: example_defs)
  have c: "EraseAfter_from_Iterator 0 (before_begin 0) mem_empty
             = Inr (list_end, mem_empty_converted)"
    by (simp add: EraseAfter_from_Iterator_def eval_defs example_defs)
  from erase_after_empty [OF example_reachable(1) e] ok c e example_reachable(1)
  show ?thesis by auto
qed

end
